theory Spec2Isabelle
  imports Main "HOL-Library.Sublist"
begin

section \<open>AoikLiveReload: a shallow embedding of \<open>aoiklivereload.py\<close>\<close>

text \<open>
  The development follows the class \<open>LiveReloader\<close>: the reduction of the candidate
  directories to their shortest prefixes (\<open>_find_short_paths\<close>,
  \<open>_collect_leaf_paths\<close>), the event filter (\<open>dispatch\<close>), the restart strategies
  (\<open>reload\<close> and the three \<open>reload_using_*\<close> methods), the constructor, and one
  iteration of the loop of \<open>run_watcher\<close>.

  Python strings are \<open>string\<close>. Python sets are iterated in an order the language
  does not fix; wherever the source iterates a set, the model takes the iteration
  order as a list and the theorems hold for every such list.
\<close>

subsection \<open>String primitives\<close>

text \<open>\<open>s.split(sep)\<close> for a one-character separator: never the empty list.\<close>

fun str_split :: "char \<Rightarrow> string \<Rightarrow> string list" where
  "str_split sep [] = [[]]"
| "str_split sep (c # cs) =
     (if c = sep then [] # str_split sep cs
      else (case str_split sep cs of
              [] \<Rightarrow> [[c]]
            | w # ws \<Rightarrow> (c # w) # ws))"

text \<open>\<open>s.join(parts)\<close>.\<close>

fun str_join :: "string \<Rightarrow> string list \<Rightarrow> string" where
  "str_join s [] = []"
| "str_join s [x] = x"
| "str_join s (x # y # ys) = x @ s @ str_join s (y # ys)"

definition startswith :: "string \<Rightarrow> string \<Rightarrow> bool" where
  "startswith s pre \<longleftrightarrow> prefix pre s"

definition endswith :: "string \<Rightarrow> string \<Rightarrow> bool" where
  "endswith s suf \<longleftrightarrow> prefix (rev suf) (rev s)"

text \<open>
  \<open>os.path.dirname\<close> of the standard library, in its POSIX form
  (\<open>posixpath.dirname\<close>): the head is everything up to and including the last
  slash; unless the head consists of slashes only, its trailing slashes are
  stripped.
\<close>

definition dirname :: "string \<Rightarrow> string" where
  "dirname p =
     (let head = rev (dropWhile (\<lambda>c. c \<noteq> CHR ''/'') (rev p))
      in if head \<noteq> [] \<and> head \<noteq> replicate (length head) (CHR ''/'')
         then rev (dropWhile (\<lambda>c. c = CHR ''/'') (rev head))
         else head)"

subsection \<open>The prefix tree of \<open>_find_short_paths\<close>\<close>

text \<open>
  A node is a Python dict from a path part to the child node; the dict keeps its
  keys in insertion order, so it is an association list.
\<close>

datatype node = Node "(string \<times> node) list"

text \<open>\<open>d[k] = v\<close>: an existing key keeps its position, a new key goes last.\<close>

fun dict_store :: "'k \<Rightarrow> 'v \<Rightarrow> ('k \<times> 'v) list \<Rightarrow> ('k \<times> 'v) list" where
  "dict_store k v [] = [(k, v)]"
| "dict_store k v ((k', v') # kvs) =
     (if k' = k then (k, v) # kvs else (k', v') # dict_store k v kvs)"

text \<open>
  The body of the loop over the sorted paths:
  \<^verbatim>\<open>
      node = root_node
      for part in parts:
          node = node.setdefault(part, {})
      node.clear()
  \<close>
  The source walks down by reference and clears the node it arrives at; the
  functional model rebuilds the spine on the way back. \<open>setdefault\<close> returns the
  existing child or a fresh empty dict stored under the key.
\<close>

fun insert_parts :: "string list \<Rightarrow> node \<Rightarrow> node" where
  "insert_parts [] n = Node []"
| "insert_parts (part # parts) (Node kids) =
     (let child = (case map_of kids part of None \<Rightarrow> Node [] | Some c \<Rightarrow> c)
      in Node (dict_store part (insert_parts parts child) kids))"

text \<open>
  \<open>_collect_leaf_paths\<close>: a node without children contributes the path of its parts,
  joined with the literal \<open>'/'\<close>; the set \<open>leaf_paths\<close> that the source fills is
  returned as the list of the paths added.
\<close>

fun collect_leaf_paths :: "node \<Rightarrow> string list \<Rightarrow> string list" where
  "collect_leaf_paths (Node kids) path_parts =
     (if kids = [] then [str_join ''/'' path_parts]
      else concat (map (\<lambda>kc. collect_leaf_paths (snd kc) (path_parts @ [fst kc])) kids))"

text \<open>
  \<open>_find_short_paths\<close>. The parameter \<open>sep\<close> is \<open>os.path.sep\<close>; \<open>paths\<close> is the
  argument set in its iteration order. \<open>sorted(..., key=len, reverse=True)\<close> is a
  stable sort on the number of parts, longest first.
\<close>

definition find_short_paths :: "char \<Rightarrow> string list \<Rightarrow> string set" where
  "find_short_paths sep paths =
     (let path_parts_s = map (str_split sep) paths;
          root_node = foldl (\<lambda>root parts. insert_parts parts root) (Node [])
                        (sort_key (\<lambda>parts. - int (length parts)) path_parts_s)
      in set (collect_leaf_paths root_node []))"

text \<open>
  Notions used to state the properties.

  \<open>parts_extend sep x y\<close> is the relation the tree works with: the list of parts
  that \<open>split\<close> gives for \<open>y\<close> strictly extends the one it gives for \<open>x\<close>.
  \<open>within sep x y\<close>: \<open>y\<close> is \<open>x\<close> itself or nested under it, on the same lists.

  On paths, the segments of a path are its non-empty parts: the root \<open>/\<close> has no
  segment, \<open>/a/b\<close> has the segments \<open>a\<close> and \<open>b\<close>. \<open>is_ancestor x y\<close>: the segment
  sequence of \<open>y\<close> strictly extends that of \<open>x\<close>; so the root is an ancestor of every
  other directory. \<open>is_abs_dir p\<close>: \<open>p\<close> is an absolute directory path in the form
  \<open>os.path.abspath\<close> returns, the root \<open>/\<close> or a slash followed by non-empty components
  separated by single slashes. \<open>no_ancestor_pair\<close>: no two of the paths are in
  ancestor relation.
\<close>

definition parts_extend :: "char \<Rightarrow> string \<Rightarrow> string \<Rightarrow> bool" where
  "parts_extend sep x y \<longleftrightarrow> strict_prefix (str_split sep x) (str_split sep y)"

definition within :: "char \<Rightarrow> string \<Rightarrow> string \<Rightarrow> bool" where
  "within sep x y \<longleftrightarrow> prefix (str_split sep x) (str_split sep y)"

definition path_segments :: "string \<Rightarrow> string list" where
  "path_segments p = filter (\<lambda>s. s \<noteq> []) (str_split (CHR ''/'') p)"

definition is_ancestor :: "string \<Rightarrow> string \<Rightarrow> bool" where
  "is_ancestor x y \<longleftrightarrow> strict_prefix (path_segments x) (path_segments y)"

definition is_abs_dir :: "string \<Rightarrow> bool" where
  "is_abs_dir p \<longleftrightarrow>
     (case str_split (CHR ''/'') p of
        [] \<Rightarrow> False
      | h # t \<Rightarrow> h = [] \<and> (t = [[]] \<or> (t \<noteq> [] \<and> [] \<notin> set t)))"

definition no_ancestor_pair :: "string list \<Rightarrow> bool" where
  "no_ancestor_pair paths \<longleftrightarrow>
     (\<forall>x \<in> set paths. \<forall>y \<in> set paths. \<not> is_ancestor x y)"

text \<open>Auxiliary notions for the proofs about the tree.\<close>

fun leaf_parts :: "node \<Rightarrow> string list list" where
  "leaf_parts (Node kids) =
     (if kids = [] then [[]]
      else concat (map (\<lambda>kc. map ((#) (fst kc)) (leaf_parts (snd kc))) kids))"

fun wf_node :: "node \<Rightarrow> bool" where
  "wf_node (Node kids) \<longleftrightarrow>
     distinct (map fst kids) \<and> (\<forall>kc \<in> set kids. wf_node (snd kc))"

definition minimal_parts :: "string list set \<Rightarrow> string list set" where
  "minimal_parts S = {x \<in> S. \<forall>y \<in> S. \<not> strict_prefix y x}"

subsection \<open>The reloader object and its restart strategies\<close>

record live_reloader =
  reload_mode :: string
  force_exit :: bool
  extra_paths :: "string set"
  interval :: int
  watch_paths :: "string set"
  watcher_to_stop :: bool

definition RELOAD_MODE_V_EXEC :: string where
  "RELOAD_MODE_V_EXEC = ''exec''"

definition RELOAD_MODE_V_SPAWN_EXIT :: string where
  "RELOAD_MODE_V_SPAWN_EXIT = ''spawn_exit''"

definition RELOAD_MODE_V_SPAWN_WAIT :: string where
  "RELOAD_MODE_V_SPAWN_WAIT = ''spawn_wait''"

definition RELOAD_MODE_VALUES :: "string list" where
  "RELOAD_MODE_VALUES =
     [RELOAD_MODE_V_EXEC, RELOAD_MODE_V_SPAWN_EXIT, RELOAD_MODE_V_SPAWN_WAIT]"

text \<open>\<open>ValueError\<close> carries the offending mode, from which the source formats its message.\<close>

datatype error = ValueError string

text \<open>
  The constructor. \<open>platform\<close> is \<open>sys.platform\<close>; \<open>abspath\<close> is \<open>os.path.abspath\<close>,
  which depends on the working directory of the host; \<open>reload_mode = None\<close> is the
  omitted argument, and an omitted \<open>extra_paths\<close> is the empty list.
\<close>

definition init ::
  "string \<Rightarrow> (string \<Rightarrow> string) \<Rightarrow> string option \<Rightarrow> bool \<Rightarrow> string list \<Rightarrow> int
   \<Rightarrow> error + live_reloader" where
  "init platform abspath mode_arg force_exit_arg extra_paths_arg interval_arg =
     (let mode = (case mode_arg of
                    None \<Rightarrow> if platform = ''win32'' then RELOAD_MODE_V_SPAWN_WAIT
                            else RELOAD_MODE_V_EXEC
                  | Some m \<Rightarrow> m)
      in if mode \<notin> set RELOAD_MODE_VALUES then Inl (ValueError mode)
         else Inr \<lparr> reload_mode = mode,
                    force_exit = force_exit_arg,
                    extra_paths = abspath ` set extra_paths_arg,
                    interval = interval_arg,
                    watch_paths = {},
                    watcher_to_stop = False \<rparr>)"

text \<open>
  The host process as the restart strategies read it: \<open>sys.executable\<close>,
  \<open>sys.argv\<close> and \<open>os.environ\<close>.
\<close>

record host =
  executable :: string
  argv :: "string list"
  environ :: "(string \<times> string) list"

text \<open>
  Calls that return are recorded in a trace, in program order:
  \<open>Call_reload\<close> marks an entry into \<open>reload\<close>; \<open>Popen\<close> is \<open>subprocess.Popen\<close>
  (spawn, do not wait); \<open>Subprocess_call\<close> is \<open>subprocess.call\<close>, which spawns the
  child and returns only when the child has terminated; \<open>Interrupt_main\<close> is
  \<open>interrupt_main()\<close>.
  Calls that do not return end the run of the calling thread:
  \<open>Execvpe\<close> replaces the process image, \<open>Os_exit\<close> is \<open>os._exit\<close>, \<open>Sys_exit\<close> is
  \<open>sys.exit\<close> (it raises \<open>SystemExit\<close>), \<open>Raise\<close> is a \<open>raise\<close> statement of the
  source. The primitives themselves are taken to succeed.
\<close>

datatype action =
    Call_reload
  | Popen "string list" "(string \<times> string) list"
  | Subprocess_call "string list" "(string \<times> string) list"
  | Interrupt_main

datatype stop =
    Execvpe string "string list" "(string \<times> string) list"
  | Os_exit int
  | Sys_exit int
  | Raise error

text \<open>
  The result of running a method: the object as the method leaves it, the trace,
  and how control left (\<open>None\<close>: the method returned).
\<close>

type_synonym outcome = "live_reloader \<times> action list \<times> stop option"

definition reload_using_exec :: "host \<Rightarrow> live_reloader \<Rightarrow> outcome" where
  "reload_using_exec h self =
     (let cmd_parts = executable h # argv h;
          env_copy = environ h
      in (self, [], Some (Execvpe (executable h) cmd_parts env_copy)))"

definition reload_using_spawn_exit :: "host \<Rightarrow> live_reloader \<Rightarrow> outcome" where
  "reload_using_spawn_exit h self =
     (let cmd_parts = executable h # argv h;
          env_copy = environ h
      in if force_exit self
         then (self, [Popen cmd_parts env_copy], Some (Os_exit 0))
         else (self\<lparr>watcher_to_stop := True\<rparr>,
               [Popen cmd_parts env_copy, Interrupt_main], Some (Sys_exit 0)))"

definition reload_using_spawn_wait :: "host \<Rightarrow> live_reloader \<Rightarrow> outcome" where
  "reload_using_spawn_wait h self =
     (let cmd_parts = executable h # argv h;
          env_copy = environ h
      in (self, [Interrupt_main, Subprocess_call cmd_parts env_copy], Some (Sys_exit 0)))"

text \<open>\<open>called r\<close>: the outcome \<open>r\<close> of a strategy, preceded by the entry into \<open>reload\<close>.\<close>

definition called :: "outcome \<Rightarrow> outcome" where
  "called r = (case r of (self, trace, ctl) \<Rightarrow> (self, Call_reload # trace, ctl))"

definition reload :: "host \<Rightarrow> live_reloader \<Rightarrow> outcome" where
  "reload h self =
     called
       (if reload_mode self = RELOAD_MODE_V_EXEC then reload_using_exec h self
        else if reload_mode self = RELOAD_MODE_V_SPAWN_EXIT then reload_using_spawn_exit h self
        else if reload_mode self = RELOAD_MODE_V_SPAWN_WAIT then reload_using_spawn_wait h self
        else (self, [], Some (Raise (ValueError (reload_mode self)))))"

text \<open>
  \<open>dispatch\<close>, for an event with \<open>event.src_path = src_path\<close>. The two tests are
  consecutive \<open>if\<close> statements: the second runs only if the first call of
  \<open>reload\<close>, when there is one, returns.
\<close>

definition dispatch :: "host \<Rightarrow> live_reloader \<Rightarrow> string \<Rightarrow> outcome" where
  "dispatch h self src_path =
     (case (if src_path \<in> extra_paths self then reload h self else (self, [], None)) of
        (self1, trace1, Some ctl) \<Rightarrow> (self1, trace1, Some ctl)
      | (self1, trace1, None) \<Rightarrow>
          (let file_path = (if endswith src_path ''.pyc'' \<or> endswith src_path ''.pyo''
                            then butlast src_path else src_path)
           in if endswith file_path ''.py''
              then (let file_dir = dirname file_path
                    in if \<exists>w \<in> watch_paths self1. startswith file_dir w
                       then (case reload h self1 of
                               (self2, trace2, ctl2) \<Rightarrow> (self2, trace1 @ trace2, ctl2))
                       else (self1, trace1, None))
              else (self1, trace1, None)))"

text \<open>The number of times \<open>reload\<close> was entered.\<close>

definition reload_calls :: "outcome \<Rightarrow> nat" where
  "reload_calls r = (case r of (self, trace, ctl) \<Rightarrow> count_list trace Call_reload)"

definition has_source_suffix :: "string \<Rightarrow> bool" where
  "has_source_suffix p \<longleftrightarrow> endswith p ''.py'' \<or> endswith p ''.pyc'' \<or> endswith p ''.pyo''"

text \<open>
  The path after the second \<open>if\<close> of \<open>dispatch\<close>: a \<open>.pyc\<close> or \<open>.pyo\<close> path loses
  its last character.
\<close>

definition norm_path :: "string \<Rightarrow> string" where
  "norm_path p = (if endswith p ''.pyc'' \<or> endswith p ''.pyo'' then butlast p else p)"

text \<open>A host and reloader objects for the concrete instances below.\<close>

definition demo_host :: host where
  "demo_host = \<lparr> executable = ''/usr/bin/python'', argv = [''app.py''], environ = [] \<rparr>"

definition demo_reloader :: "string \<Rightarrow> string set \<Rightarrow> string set \<Rightarrow> live_reloader" where
  "demo_reloader mode watch extra =
     \<lparr> reload_mode = mode, force_exit = False, extra_paths = extra, interval = 1,
       watch_paths = watch, watcher_to_stop = False \<rparr>"

subsection \<open>The watcher loop\<close>

text \<open>
  The observer of the \<open>watchdog\<close> library is outside the source. A call
  \<open>observer.schedule(self, path, recursive=True)\<close> either returns a watch object
  (a handle) or raises \<open>OSError\<close>, the failure that the source catches; which of the two
  may depend on everything that happened before, so the observer is a function of
  the calls made so far and the path. \<open>None\<close> is the raised \<open>OSError\<close>.
\<close>

type_synonym handle = nat

datatype obs_call =
    Schedule string "handle option"
  | Unschedule "handle option"

type_synonym observer = "obs_call list \<Rightarrow> string \<Rightarrow> handle option"

text \<open>
  The state of \<open>run_watcher\<close>: the dict \<open>watche_obj_map\<close> from a path to its watch
  object or to \<open>None\<close> (the value stored after a failed registration), the calls
  made on the observer so far, and the published \<open>self._watch_paths\<close>.
\<close>

record watcher =
  watche_obj_map :: "string \<rightharpoonup> handle option"
  calls :: "obs_call list"
  published :: "string set"

definition watcher_init :: watcher where
  "watcher_init = \<lparr> watche_obj_map = Map.empty, calls = [], published = {} \<rparr>"

text \<open>
  The first inner loop, over the new watch paths in their iteration order. The
  state is the dict, the set \<open>old_watch_path_s\<close> and the calls made.
\<close>

fun schedule_loop ::
  "observer \<Rightarrow> string list \<Rightarrow> (string \<rightharpoonup> handle option) \<times> string set \<times> obs_call list
   \<Rightarrow> (string \<rightharpoonup> handle option) \<times> string set \<times> obs_call list" where
  "schedule_loop obs [] st = st"
| "schedule_loop obs (new_watch_path # rest) (m, old_watch_path_s, log) =
     (let old_watch_path_s = old_watch_path_s - {new_watch_path}
      in if m new_watch_path = None
         then (case obs log new_watch_path of
                 Some watch_obj \<Rightarrow>
                   schedule_loop obs rest
                     (m(new_watch_path \<mapsto> Some watch_obj), old_watch_path_s,
                      log @ [Schedule new_watch_path (Some watch_obj)])
               | None \<Rightarrow>
                   schedule_loop obs rest
                     (m(new_watch_path \<mapsto> None), old_watch_path_s,
                      log @ [Schedule new_watch_path None]))
         else schedule_loop obs rest (m, old_watch_path_s, log))"

text \<open>
  The second inner loop, over the remaining old watch paths in their iteration
  order: \<open>pop(old_watch_path, None)\<close>, then \<open>unschedule\<close> unless the popped value is
  \<open>None\<close>.
\<close>

fun unschedule_loop ::
  "string list \<Rightarrow> (string \<rightharpoonup> handle option) \<times> obs_call list
   \<Rightarrow> (string \<rightharpoonup> handle option) \<times> obs_call list" where
  "unschedule_loop [] st = st"
| "unschedule_loop (old_watch_path # rest) (m, log) =
     (let watch_obj = (case m old_watch_path of None \<Rightarrow> None | Some v \<Rightarrow> v);
          m = m(old_watch_path := None)
      in if watch_obj \<noteq> None
         then unschedule_loop rest (m, log @ [Unschedule watch_obj])
         else unschedule_loop rest (m, log))"

text \<open>
  \<open>iterates S xs\<close>: the list \<open>xs\<close> is an iteration order of the set \<open>S\<close>.
  \<open>old_paths_left\<close> is \<open>old_watch_path_s\<close> as the first loop leaves it.
\<close>

definition iterates :: "'a set \<Rightarrow> 'a list \<Rightarrow> bool" where
  "iterates S xs \<longleftrightarrow> set xs = S \<and> distinct xs"

definition old_paths_left :: "observer \<Rightarrow> string list \<Rightarrow> watcher \<Rightarrow> string set" where
  "old_paths_left obs new_watch_path_s w =
     fst (snd (schedule_loop obs new_watch_path_s
                 (watche_obj_map w, dom (watche_obj_map w), calls w)))"

text \<open>
  One iteration of the \<open>while\<close> loop (one reconciliation pass). \<open>new_watch_path_s\<close>
  is the result of \<open>_find_watch_paths\<close> in its iteration order; \<open>old_order\<close> is the
  order in which the second loop meets the remaining old paths.
\<close>

definition run_watcher_pass ::
  "observer \<Rightarrow> string list \<Rightarrow> string list \<Rightarrow> watcher \<Rightarrow> watcher" where
  "run_watcher_pass obs new_watch_path_s old_order w =
     (case schedule_loop obs new_watch_path_s
             (watche_obj_map w, dom (watche_obj_map w), calls w) of
        (m1, old_watch_path_s, log1) \<Rightarrow>
          (case unschedule_loop old_order (m1, log1) of
             (m2, log2) \<Rightarrow>
               \<lparr> watche_obj_map = m2, calls = log2, published = set new_watch_path_s \<rparr>))"

text \<open>
  Finitely many iterations of the loop, one pair of iteration orders per pass.
  \<open>passes_ok\<close> says that in every pass the second order iterates what the first
  loop left of \<open>old_watch_path_s\<close>.
\<close>

fun run_watcher :: "observer \<Rightarrow> (string list \<times> string list) list \<Rightarrow> watcher \<Rightarrow> watcher" where
  "run_watcher obs [] w = w"
| "run_watcher obs ((new_watch_path_s, old_order) # ticks) w =
     run_watcher obs ticks (run_watcher_pass obs new_watch_path_s old_order w)"

fun passes_ok :: "observer \<Rightarrow> (string list \<times> string list) list \<Rightarrow> watcher \<Rightarrow> bool" where
  "passes_ok obs [] w \<longleftrightarrow> True"
| "passes_ok obs ((new_watch_path_s, old_order) # ticks) w \<longleftrightarrow>
     iterates (old_paths_left obs new_watch_path_s w) old_order \<and>
     passes_ok obs ticks (run_watcher_pass obs new_watch_path_s old_order w)"

text \<open>The handles returned by \<open>schedule\<close> and the arguments of \<open>unschedule\<close>, in call order.\<close>

fun scheduled_handles :: "obs_call list \<Rightarrow> handle list" where
  "scheduled_handles [] = []"
| "scheduled_handles (Schedule p (Some h) # cs) = h # scheduled_handles cs"
| "scheduled_handles (c # cs) = scheduled_handles cs"

fun unscheduled_args :: "obs_call list \<Rightarrow> handle option list" where
  "unscheduled_args [] = []"
| "unscheduled_args (Unschedule v # cs) = v # unscheduled_args cs"
| "unscheduled_args (c # cs) = unscheduled_args cs"

text \<open>The calls that a run added to the calls made before it.\<close>

definition new_calls :: "watcher \<Rightarrow> watcher \<Rightarrow> obs_call list" where
  "new_calls w w' = drop (length (calls w)) (calls w')"

text \<open>
  An observer for the concrete instances below: it raises \<open>OSError\<close> for the paths of
  \<open>unwatchable\<close> and otherwise returns a handle never returned before (the number of
  calls made so far).
\<close>

definition demo_observer :: "string set \<Rightarrow> observer" where
  "demo_observer unwatchable log p = (if p \<in> unwatchable then None else Some (length log))"

text \<open>
  The invariant of the watcher loop that relates the dict and the calls made.
  \<open>registered_at m h\<close> are the paths registered under the handle \<open>h\<close>. \<open>count_inv\<close>:
  the dict is finite, and every handle was returned by \<open>schedule\<close> exactly as often
  as it was passed to \<open>unschedule\<close> or is still registered. \<open>unsched_consumes\<close>: every
  call of \<open>unschedule\<close> got a handle that, up to then, \<open>schedule\<close> had returned more
  often than \<open>unschedule\<close> had been given it.
\<close>

definition registered_at :: "(string \<rightharpoonup> handle option) \<Rightarrow> handle \<Rightarrow> string set" where
  "registered_at m h = {p. m p = Some (Some h)}"

definition count_inv :: "(string \<rightharpoonup> handle option) \<Rightarrow> obs_call list \<Rightarrow> bool" where
  "count_inv m log \<longleftrightarrow>
     finite (dom m) \<and>
     (\<forall>h. count_list (scheduled_handles log) h
          = count_list (unscheduled_args log) (Some h) + card (registered_at m h))"

definition unsched_consumes :: "obs_call list \<Rightarrow> bool" where
  "unsched_consumes log \<longleftrightarrow>
     (\<forall>pre v post. log = pre @ Unschedule v # post
        \<longrightarrow> (\<exists>h. v = Some h
              \<and> count_list (unscheduled_args pre) (Some h) < count_list (scheduled_handles pre) h))"

definition consume_inv :: "(string \<rightharpoonup> handle option) \<Rightarrow> obs_call list \<Rightarrow> bool" where
  "consume_inv m log \<longleftrightarrow> count_inv m log \<and> unsched_consumes log"

section \<open>Properties of the shortest-prefix reduction\<close>

subsection \<open>Splitting and joining\<close>

lemma str_split_not_Nil: "str_split sep s \<noteq> []"
  by (induction s) (auto split: list.splits)

lemma str_join_Cons: "ws \<noteq> [] \<Longrightarrow> str_join s (w # ws) = w @ s @ str_join s ws"
  by (cases ws) auto

lemma str_join_split: "str_join [sep] (str_split sep s) = s"
proof (induction s)
  case Nil
  show ?case by simp
next
  case (Cons c cs)
  show ?case
  proof (cases "c = sep")
    case True
    with Cons show ?thesis by (simp add: str_join_Cons str_split_not_Nil)
  next
    case False
    obtain w ws where ws: "str_split sep cs = w # ws"
      using str_split_not_Nil [of sep cs] by (cases "str_split sep cs") auto
    with Cons False show ?thesis by (cases ws) auto
  qed
qed

lemma collect_leaf_paths_leaf_parts:
  "collect_leaf_paths n pp = map (\<lambda>l. str_join ''/'' (pp @ l)) (leaf_parts n)"
proof (induction n pp rule: collect_leaf_paths.induct)
  case (1 kids path_parts)
  show ?case
  proof (cases "kids = []")
    case True
    then show ?thesis by simp
  next
    case False
    have "map (\<lambda>kc. collect_leaf_paths (snd kc) (path_parts @ [fst kc])) kids
        = map (\<lambda>kc. map (\<lambda>l. str_join ''/'' (path_parts @ l)) (map ((#) (fst kc)) (leaf_parts (snd kc)))) kids"
      by (rule map_cong [OF refl]) (simp add: 1 [OF False])
    then have "concat (map (\<lambda>kc. collect_leaf_paths (snd kc) (path_parts @ [fst kc])) kids)
        = map (\<lambda>l. str_join ''/'' (path_parts @ l)) (leaf_parts (Node kids))"
      using False by (simp only: leaf_parts.simps if_False map_concat map_map comp_def)
    with False show ?thesis by (simp only: collect_leaf_paths.simps if_False)
  qed
qed

lemma set_dict_store:
  "distinct (map fst kvs) \<Longrightarrow>
   set (dict_store k v kvs) = insert (k, v) {kv \<in> set kvs. fst kv \<noteq> k}"
proof (induction kvs)
  case Nil
  show ?case by simp
next
  case (Cons a kvs)
  obtain k' v' where a: "a = (k', v')" by (cases a)
  show ?case
  proof (cases "k' = k")
    case True
    with Cons.prems a show ?thesis by force
  next
    case False
    with Cons a show ?thesis by force
  qed
qed

lemma map_fst_dict_store:
  "map fst (dict_store k v kvs) =
     (if k \<in> fst ` set kvs then map fst kvs else map fst kvs @ [k])"
proof (induction kvs)
  case Nil
  show ?case by simp
next
  case (Cons a kvs)
  obtain k' v' where a: "a = (k', v')" by (cases a)
  from Cons a show ?case by (cases "k' = k") (auto simp: image_iff)
qed

lemma distinct_dict_store:
  "distinct (map fst kvs) \<Longrightarrow> distinct (map fst (dict_store k v kvs))"
  by (simp add: map_fst_dict_store)

lemma dict_store_not_Nil: "dict_store k v kvs \<noteq> []"
  by (cases kvs) (auto split: if_splits)

lemma wf_insert_parts: "wf_node n \<Longrightarrow> wf_node (insert_parts ps n)"
proof (induction ps arbitrary: n)
  case Nil show ?case by simp
next
  case (Cons part parts)
  obtain kids where n: "n = Node kids" by (cases n)
  define child where "child = (case map_of kids part of None \<Rightarrow> Node [] | Some c \<Rightarrow> c)"
  have "wf_node child"
    using Cons.prems n unfolding child_def
    by (auto split: option.splits dest!: map_of_SomeD)
  then have "wf_node (insert_parts parts child)" by (rule Cons.IH)
  then show ?case
    using Cons.prems n
    by (auto simp: Let_def child_def [symmetric] set_dict_store distinct_dict_store)
qed

lemma in_leaf_parts_Node:
  "l \<in> set (leaf_parts (Node kids)) \<longleftrightarrow>
     (if kids = [] then l = []
      else \<exists>k c l'. (k, c) \<in> set kids \<and> l' \<in> set (leaf_parts c) \<and> l = k # l')"
  by (cases "kids = []") force+

lemma in_leaf_parts_store:
  assumes "distinct (map fst kids)"
  shows "l \<in> set (leaf_parts (Node (dict_store part new kids))) \<longleftrightarrow>
     (\<exists>l'. l' \<in> set (leaf_parts new) \<and> l = part # l')
     \<or> (\<exists>k c l'. (k, c) \<in> set kids \<and> k \<noteq> part \<and> l' \<in> set (leaf_parts c) \<and> l = k # l')"
proof -
  have "l \<in> set (leaf_parts (Node (dict_store part new kids))) \<longleftrightarrow>
      (\<exists>k c l'. (k, c) \<in> set (dict_store part new kids) \<and> l' \<in> set (leaf_parts c) \<and> l = k # l')"
    unfolding in_leaf_parts_Node by (simp add: dict_store_not_Nil)
  also have "set (dict_store part new kids) = insert (part, new) {kv \<in> set kids. fst kv \<noteq> part}"
    using assms by (rule set_dict_store)
  finally show ?thesis by auto
qed

lemma insert_parts_Cons:
  "insert_parts (part # parts) (Node kids) =
     Node (dict_store part
       (insert_parts parts (case map_of kids part of None \<Rightarrow> Node [] | Some c \<Rightarrow> c)) kids)"
  by (simp add: Let_def)

lemma in_leaf_parts_insert_parts:
  "wf_node n \<Longrightarrow>
   l \<in> set (leaf_parts (insert_parts ps n)) \<longleftrightarrow>
     l = ps \<or> (l \<in> set (leaf_parts n) \<and> \<not> prefix ps l \<and> \<not> prefix l ps)"
proof (induction ps arbitrary: n l)
  case Nil
  show ?case by auto
next
  case (Cons part parts)
  obtain kids where n: "n = Node kids" by (cases n)
  have dist: "distinct (map fst kids)" using Cons.prems n by simp
  have wf_kid: "\<And>k c. (k, c) \<in> set kids \<Longrightarrow> wf_node c"
    using Cons.prems n by auto
  show ?case
  proof (cases "map_of kids part")
    case None
    then have nk: "\<And>k c. (k, c) \<in> set kids \<Longrightarrow> k \<noteq> part"
      by (metis map_of_eq_None_iff fst_conv image_eqI)
    have new: "\<And>l'. l' \<in> set (leaf_parts (insert_parts parts (Node []))) \<longleftrightarrow> l' = parts"
      using Cons.IH [of "Node []"] by (simp cong: conj_cong)
    have "l \<in> set (leaf_parts (insert_parts (part # parts) n)) \<longleftrightarrow>
        l = part # parts
        \<or> (\<exists>k c l'. (k, c) \<in> set kids \<and> k \<noteq> part \<and> l' \<in> set (leaf_parts c) \<and> l = k # l')"
      unfolding n insert_parts_Cons None option.case in_leaf_parts_store [OF dist] new
      by blast
    also have "\<dots> \<longleftrightarrow> l = part # parts
        \<or> (l \<in> set (leaf_parts n) \<and> \<not> prefix (part # parts) l \<and> \<not> prefix l (part # parts))"
    proof (cases "kids = []")
      case True
      then show ?thesis unfolding n in_leaf_parts_Node by (simp cong: conj_cong)
    next
      case False
      then show ?thesis unfolding n in_leaf_parts_Node using nk by fastforce
    qed
    finally show ?thesis .
  next
    case (Some c)
    then have mem: "(part, c) \<in> set kids" by (rule map_of_SomeD)
    then have ne: "kids \<noteq> []" by auto
    have uniq: "\<And>c'. (part, c') \<in> set kids \<Longrightarrow> c' = c"
      using dist mem by (metis eq_key_imp_eq_value)
    have IH: "\<And>l'. l' \<in> set (leaf_parts (insert_parts parts c)) \<longleftrightarrow>
        l' = parts \<or> (l' \<in> set (leaf_parts c) \<and> \<not> prefix parts l' \<and> \<not> prefix l' parts)"
      by (rule Cons.IH) (rule wf_kid [OF mem])
    have "l \<in> set (leaf_parts (insert_parts (part # parts) n)) \<longleftrightarrow>
        (\<exists>l'. (l' = parts \<or> (l' \<in> set (leaf_parts c) \<and> \<not> prefix parts l' \<and> \<not> prefix l' parts))
              \<and> l = part # l')
        \<or> (\<exists>k c l'. (k, c) \<in> set kids \<and> k \<noteq> part \<and> l' \<in> set (leaf_parts c) \<and> l = k # l')"
      unfolding n insert_parts_Cons Some option.case in_leaf_parts_store [OF dist] IH ..
    also have "\<dots> \<longleftrightarrow> l = part # parts
        \<or> (l \<in> set (leaf_parts n) \<and> \<not> prefix (part # parts) l \<and> \<not> prefix l (part # parts))"
      (is "?A \<or> ?B \<longleftrightarrow> ?C \<or> ?D")
    proof
      assume "?A \<or> ?B"
      then show "?C \<or> ?D"
      proof
        assume ?A
        then obtain l' where l: "l = part # l'"
          and d: "l' = parts \<or> (l' \<in> set (leaf_parts c) \<and> \<not> prefix parts l' \<and> \<not> prefix l' parts)"
          by blast
        from d show ?thesis
        proof
          assume "l' = parts" with l show ?thesis by simp
        next
          assume a: "l' \<in> set (leaf_parts c) \<and> \<not> prefix parts l' \<and> \<not> prefix l' parts"
          then have "l \<in> set (leaf_parts n)"
            unfolding n in_leaf_parts_Node using ne mem l by auto
          with a l show ?thesis by simp
        qed
      next
        assume ?B
        then obtain k c' l' where "(k, c') \<in> set kids" "k \<noteq> part"
          "l' \<in> set (leaf_parts c')" "l = k # l'" by blast
        moreover from this have "l \<in> set (leaf_parts n)"
          unfolding n in_leaf_parts_Node using ne by auto
        ultimately show ?thesis by simp
      qed
    next
      assume "?C \<or> ?D"
      then show "?A \<or> ?B"
      proof
        assume ?C then show ?thesis by simp
      next
        assume ?D
        then obtain k c' l' where kc: "(k, c') \<in> set kids" "l' \<in> set (leaf_parts c')" "l = k # l'"
          and inc: "\<not> prefix (part # parts) l" "\<not> prefix l (part # parts)"
          unfolding n in_leaf_parts_Node using ne by auto
        show ?thesis
        proof (cases "k = part")
          case True
          with kc uniq have "c' = c" by blast
          with kc inc True have ?A by simp
          then show ?thesis ..
        next
          case False
          with kc have ?B by blast
          then show ?thesis ..
        qed
      qed
    qed
    finally show ?thesis .
  qed
qed

lemma leaf_parts_insert_parts:
  "wf_node n \<Longrightarrow>
   set (leaf_parts (insert_parts ps n)) =
     insert ps {l \<in> set (leaf_parts n). \<not> prefix ps l \<and> \<not> prefix l ps}"
  by (auto simp: in_leaf_parts_insert_parts)

lemma wf_foldl_insert_parts:
  "wf_node n \<Longrightarrow> wf_node (foldl (\<lambda>root parts. insert_parts parts root) n xs)"
  by (induction xs arbitrary: n) (simp_all add: wf_insert_parts)

lemma minimal_parts_snoc:
  assumes len: "\<forall>y \<in> S. length x \<le> length y"
  shows "insert x {l \<in> minimal_parts S. \<not> prefix x l \<and> \<not> prefix l x} = minimal_parts (insert x S)"
proof (rule set_eqI)
  fix l
  have no_strict: "\<And>y. y \<in> S \<Longrightarrow> \<not> strict_prefix y x"
    using len by (metis leD prefix_length_less)
  have eq_of_prefix: "\<And>y. y \<in> S \<Longrightarrow> prefix y x \<Longrightarrow> y = x"
    using no_strict by (auto simp: strict_prefix_def)
  show "l \<in> insert x {l \<in> minimal_parts S. \<not> prefix x l \<and> \<not> prefix l x}
        \<longleftrightarrow> l \<in> minimal_parts (insert x S)"
  proof (cases "l = x")
    case True
    then show ?thesis using no_strict by (auto simp: minimal_parts_def)
  next
    case False
    then show ?thesis
      using eq_of_prefix [of l] by (auto simp: minimal_parts_def strict_prefix_def)
  qed
qed

lemma leaf_parts_foldl_insert_parts:
  assumes "sorted_wrt (\<lambda>a b. length b \<le> length a) xs" and "xs \<noteq> []"
  shows "set (leaf_parts (foldl (\<lambda>root parts. insert_parts parts root) (Node []) xs))
         = minimal_parts (set xs)"
  using assms
proof (induction xs rule: rev_induct)
  case Nil
  then show ?case by simp
next
  case (snoc x xs)
  let ?t = "foldl (\<lambda>root parts. insert_parts parts root) (Node []) xs"
  have wf: "wf_node ?t" by (rule wf_foldl_insert_parts) simp
  have len: "\<forall>y \<in> set xs. length x \<le> length y"
    using snoc.prems(1) by (simp add: sorted_wrt_append)
  have srt: "sorted_wrt (\<lambda>a b. length b \<le> length a) xs"
    using snoc.prems(1) by (simp add: sorted_wrt_append)
  have step: "set (leaf_parts (insert_parts x ?t))
      = insert x {l \<in> set (leaf_parts ?t). \<not> prefix x l \<and> \<not> prefix l x}"
    using wf by (rule leaf_parts_insert_parts)
  show ?case
  proof (cases "xs = []")
    case True
    have "set (leaf_parts (insert_parts x (Node []))) = {x}"
      using leaf_parts_insert_parts [of "Node []" x] by (auto cong: conj_cong)
    with True show ?thesis by (auto simp: minimal_parts_def)
  next
    case False
    with snoc.IH srt have "set (leaf_parts ?t) = minimal_parts (set xs)" by simp
    with step have "set (leaf_parts (insert_parts x ?t))
        = insert x {l \<in> minimal_parts (set xs). \<not> prefix x l \<and> \<not> prefix l x}" by simp
    also have "\<dots> = minimal_parts (insert x (set xs))"
      using len by (rule minimal_parts_snoc)
    finally show ?thesis by simp
  qed
qed

lemma sorted_wrt_sort_key_length:
  "sorted_wrt (\<lambda>a b. length b \<le> length a)
     (sort_key (\<lambda>parts. - int (length parts)) (xs :: 'a list list))"
proof -
  have "sorted (map (\<lambda>parts. - int (length parts)) (sort_key (\<lambda>parts. - int (length parts)) xs))"
    by (rule sorted_sort_key)
  then show ?thesis by (simp add: sorted_map)
qed

lemma find_short_paths_eq:
  assumes "paths \<noteq> []"
  shows "find_short_paths sep paths
         = str_join ''/'' ` minimal_parts (str_split sep ` set paths)"
proof -
  let ?xs = "sort_key (\<lambda>parts. - int (length parts)) (map (str_split sep) paths)"
  have ne: "?xs \<noteq> []" using assms by (metis length_sort list.map_disc_iff length_0_conv)
  have "set (leaf_parts (foldl (\<lambda>root parts. insert_parts parts root) (Node []) ?xs))
        = minimal_parts (set ?xs)"
    using sorted_wrt_sort_key_length ne by (rule leaf_parts_foldl_insert_parts)
  then show ?thesis
    by (simp add: find_short_paths_def collect_leaf_paths_leaf_parts)
qed

lemma find_short_paths_posix:
  assumes "paths \<noteq> []"
  shows "find_short_paths (CHR ''/'') paths
         = {p \<in> set paths. \<forall>q \<in> set paths. \<not> parts_extend (CHR ''/'') q p}"
proof -
  have join: "\<And>p. str_join ''/'' (str_split (CHR ''/'') p) = p"
    using str_join_split [of "CHR ''/''"] by simp
  have "minimal_parts (str_split (CHR ''/'') ` set paths)
      = str_split (CHR ''/'') ` {p \<in> set paths. \<forall>q \<in> set paths. \<not> parts_extend (CHR ''/'') q p}"
    by (auto simp: minimal_parts_def parts_extend_def)
  then have "str_join ''/'' ` minimal_parts (str_split (CHR ''/'') ` set paths)
      = {p \<in> set paths. \<forall>q \<in> set paths. \<not> parts_extend (CHR ''/'') q p}"
    by (simp add: image_image join)
  with find_short_paths_eq [OF assms] show ?thesis by simp
qed

subsection \<open>Consequences for sets without ancestor pairs\<close>

lemma leaf_parts_not_Nil: "leaf_parts n \<noteq> []"
proof (induction n rule: leaf_parts.induct)
  case (1 kids)
  show ?case
  proof (cases kids)
    case Nil
    then show ?thesis by simp
  next
    case (Cons kc rest)
    with 1 [of kc] have "leaf_parts (snd kc) \<noteq> []" by simp
    with Cons show ?thesis by simp
  qed
qed

lemma find_short_paths_not_empty: "find_short_paths sep paths \<noteq> {}"
  by (simp add: find_short_paths_def collect_leaf_paths_leaf_parts leaf_parts_not_Nil)

lemma parts_extend_irrefl: "\<not> parts_extend sep x x"
  by (simp add: parts_extend_def)

lemma find_short_paths_no_parts_extend:
  assumes "paths \<noteq> []"
      and "\<forall>x \<in> set paths. \<forall>y \<in> set paths. \<not> parts_extend (CHR ''/'') x y"
  shows "find_short_paths (CHR ''/'') paths = set paths"
  using assms(2) by (auto simp: find_short_paths_posix [OF assms(1)])

lemma find_short_paths_idem:
  assumes "set qs = find_short_paths (CHR ''/'') paths"
  shows "find_short_paths (CHR ''/'') qs = find_short_paths (CHR ''/'') paths"
proof -
  have qs: "qs \<noteq> []"
    using assms find_short_paths_not_empty [of "CHR ''/''" paths] by auto
  have anti: "\<forall>x \<in> set qs. \<forall>y \<in> set qs. \<not> parts_extend (CHR ''/'') x y"
  proof (cases "paths = []")
    case True
    then have "set qs = {''''}" using assms by (simp add: find_short_paths_def)
    then show ?thesis by (simp add: parts_extend_irrefl)
  next
    case False
    show ?thesis
      unfolding assms by (simp add: find_short_paths_posix [OF False])
  qed
  from qs anti have "find_short_paths (CHR ''/'') qs = set qs"
    by (rule find_short_paths_no_parts_extend)
  with assms show ?thesis by simp
qed

subsection \<open>Parts and segments of absolute directory paths\<close>

lemma str_split_root: "str_split (CHR ''/'') p = [[], []] \<longleftrightarrow> p = ''/''"
proof
  assume "str_split (CHR ''/'') p = [[], []]"
  then have "str_join ''/'' (str_split (CHR ''/'') p) = ''/''" by simp
  then show "p = ''/''" using str_join_split [of "CHR ''/''" p] by simp
next
  assume "p = ''/''"
  then show "str_split (CHR ''/'') p = [[], []]" by simp
qed

lemma is_abs_dir_cases:
  assumes "is_abs_dir p"
  obtains "p = ''/''" "str_split (CHR ''/'') p = [[], []]" "path_segments p = []"
  | t where "p \<noteq> ''/''" "str_split (CHR ''/'') p = [] # t" "t \<noteq> []" "[] \<notin> set t"
      "path_segments p = t"
proof -
  from assms obtain t where sp: "str_split (CHR ''/'') p = [] # t"
    and t: "t = [[]] \<or> (t \<noteq> [] \<and> [] \<notin> set t)"
    by (auto simp: is_abs_dir_def split: list.splits)
  show thesis
  proof (cases "t = [[]]")
    case True
    with sp have s: "str_split (CHR ''/'') p = [[], []]" by simp
    then have "p = ''/''" by (simp add: str_split_root)
    moreover from s have "path_segments p = []" by (simp add: path_segments_def)
    ultimately show thesis using s that(1) by blast
  next
    case False
    with t have ne: "t \<noteq> []" and nn: "[] \<notin> set t" by simp_all
    from nn have "filter (\<lambda>s. s \<noteq> []) t = t" by (auto simp: filter_id_conv)
    with sp have seg: "path_segments p = t" by (simp add: path_segments_def)
    have "p \<noteq> ''/''"
    proof
      assume "p = ''/''"
      then have "str_split (CHR ''/'') p = [[], []]" by simp
      with sp False show False by simp
    qed
    then show thesis using sp ne nn seg that(2) by blast
  qed
qed

lemma parts_extend_abs_dir:
  assumes "is_abs_dir x" and "is_abs_dir y"
  shows "parts_extend (CHR ''/'') x y \<longleftrightarrow> x \<noteq> ''/'' \<and> is_ancestor x y"
  using assms(1)
proof (cases rule: is_abs_dir_cases)
  case 1
  have "\<not> parts_extend (CHR ''/'') x y"
    using assms(2)
  proof (cases rule: is_abs_dir_cases)
    case 1
    with \<open>str_split (CHR ''/'') x = [[], []]\<close> show ?thesis by (simp add: parts_extend_def)
  next
    case (2 t)
    show ?thesis
    proof
      assume "parts_extend (CHR ''/'') x y"
      then have "strict_prefix [[], []] ([] # t)"
        using 1(2) 2(2) by (simp add: parts_extend_def)
      then have "[] \<in> set t" by (cases t) auto
      with 2(4) show False by simp
    qed
  qed
  with 1(1) show ?thesis by simp
next
  case (2 tx)
  show ?thesis
    using assms(2)
  proof (cases rule: is_abs_dir_cases)
    case 1
    have "\<not> strict_prefix ([] # tx) [[], []]"
      using 2(3,4) by (cases tx) auto
    then have "\<not> parts_extend (CHR ''/'') x y"
      using 2(2) 1(2) by (simp add: parts_extend_def)
    moreover have "\<not> is_ancestor x y" using 1(3) by (simp add: is_ancestor_def)
    ultimately show ?thesis by simp
  next
    case (2 ty)
    from \<open>str_split (CHR ''/'') x = [] # tx\<close> 2(2)
    have "parts_extend (CHR ''/'') x y \<longleftrightarrow> strict_prefix tx ty"
      by (simp add: parts_extend_def)
    moreover from \<open>path_segments x = tx\<close> 2(5)
    have "is_ancestor x y \<longleftrightarrow> strict_prefix tx ty" by (simp add: is_ancestor_def)
    ultimately show ?thesis using \<open>x \<noteq> ''/''\<close> by simp
  qed
qed

lemma find_short_paths_no_ancestor_pair:
  assumes "paths \<noteq> []" and "\<forall>p \<in> set paths. is_abs_dir p" and "no_ancestor_pair paths"
  shows "find_short_paths (CHR ''/'') paths = set paths"
proof -
  have "\<forall>x \<in> set paths. \<forall>y \<in> set paths. \<not> parts_extend (CHR ''/'') x y"
    using assms(2,3) by (auto simp: no_ancestor_pair_def parts_extend_abs_dir)
  with assms(1) show ?thesis by (rule find_short_paths_no_parts_extend)
qed

text \<open>
  Two remarks on the parts. The root directory \<open>/\<close> splits into two empty parts, so
  the tree does not see it as a prefix of \<open>/a\<close>: the root is an ancestor of \<open>/a\<close>,
  and both are kept. The result is joined with the literal \<open>/\<close> whatever
  \<open>os.path.sep\<close> is: with a backslash as separator the result holds the path with
  its separators replaced.
\<close>

lemma find_short_paths_root_kept:
  "is_abs_dir ''/'' \<and> is_abs_dir ''/a'' \<and> is_ancestor ''/'' ''/a''
   \<and> find_short_paths (CHR ''/'') [''/'', ''/a''] = {''/'', ''/a''}"
  by (simp add: is_abs_dir_def is_ancestor_def path_segments_def find_short_paths_def)

lemma find_short_paths_other_separator:
  "find_short_paths (CHR 0x5C) [[CHR ''C'', CHR '':'', CHR 0x5C, CHR ''a'']] = {''C:/a''}"
  by (simp add: find_short_paths_def)

subsection \<open>Claims about \<open>_find_short_paths\<close>\<close>

text \<open>
  Claim C1, as the code has it by design, for absolute directory paths other than
  the root: if \<open>x\<close> and \<open>y\<close> are among the candidate paths and \<open>x\<close> is an ancestor of
  \<open>y\<close>, the result does not contain \<open>y\<close>; it contains \<open>x\<close> exactly when no candidate
  is an ancestor of \<open>x\<close> itself. For the candidates \<open>/a\<close>, \<open>/a/b\<close>, \<open>/c\<close>, in any
  iteration order, the result is exactly \<open>/a\<close> and \<open>/c\<close>. What happens when the root
  is among the candidates is left out here (see \<open>find_short_paths_root_kept\<close>).
\<close>

theorem find_short_paths_ancestor:
  assumes "\<forall>p \<in> set paths. is_abs_dir p \<and> p \<noteq> ''/''"
      and "x \<in> set paths" and "y \<in> set paths" and "is_ancestor x y"
  shows "y \<notin> find_short_paths (CHR ''/'') paths
       \<and> (x \<in> find_short_paths (CHR ''/'') paths
            \<longleftrightarrow> (\<forall>z \<in> set paths. \<not> is_ancestor z x))
       \<and> (set ps = {''/a'', ''/a/b'', ''/c''}
            \<longrightarrow> find_short_paths (CHR ''/'') ps = {''/a'', ''/c''})"
proof (intro conjI impI)
  have ne: "paths \<noteq> []" using assms(2) by auto
  note R = find_short_paths_posix [OF ne]
  have rel: "parts_extend (CHR ''/'') q p \<longleftrightarrow> is_ancestor q p"
    if "q \<in> set paths" and "p \<in> set paths" for q p
    using that assms(1) by (simp add: parts_extend_abs_dir)
  from assms(2,3,4) have "parts_extend (CHR ''/'') x y" by (simp add: rel)
  with assms(2) show "y \<notin> find_short_paths (CHR ''/'') paths"
    by (auto simp: R)
  show "x \<in> find_short_paths (CHR ''/'') paths
            \<longleftrightarrow> (\<forall>z \<in> set paths. \<not> is_ancestor z x)"
    using assms(2) by (simp add: R rel)
next
  assume ps: "set ps = {''/a'', ''/a/b'', ''/c''}"
  have "ps \<noteq> []"
  proof
    assume "ps = []"
    with ps show False by simp
  qed
  then have "find_short_paths (CHR ''/'') ps
      = {p \<in> {''/a'', ''/a/b'', ''/c''}. \<forall>q \<in> {''/a'', ''/a/b'', ''/c''}. \<not> parts_extend (CHR ''/'') q p}"
    using find_short_paths_posix [of ps] ps by simp
  also have "\<dots> = {''/a'', ''/c''}"
    by (auto simp: parts_extend_def)
  finally show "find_short_paths (CHR ''/'') ps = {''/a'', ''/c''}" .
qed

theorem find_short_paths_ancestor_witness:
  "is_abs_dir ''/c'' \<and> ''/c'' \<noteq> ''/''
   \<and> is_abs_dir ''/a/b'' \<and> ''/a/b'' \<noteq> ''/''
   \<and> is_abs_dir ''/a'' \<and> ''/a'' \<noteq> ''/''
   \<and> ''/a'' \<in> set [''/c'', ''/a/b'', ''/a''] \<and> ''/a/b'' \<in> set [''/c'', ''/a/b'', ''/a'']
   \<and> is_ancestor ''/a'' ''/a/b''
   \<and> ''/a/b'' \<notin> find_short_paths (CHR ''/'') [''/c'', ''/a/b'', ''/a'']
   \<and> ''/a'' \<in> find_short_paths (CHR ''/'') [''/c'', ''/a/b'', ''/a'']
   \<and> find_short_paths (CHR ''/'') [''/a'', ''/a/b'', ''/c''] = {''/a'', ''/c''}"
  using find_short_paths_ancestor
    [of "[''/c'', ''/a/b'', ''/a'']" "''/a''" "''/a/b''" "[''/a'', ''/a/b'', ''/c'']"]
  by (simp add: is_abs_dir_def is_ancestor_def path_segments_def)

text \<open>
  Claim C1 as stated fails on a chain: among \<open>/a\<close>, \<open>/a/b\<close>, \<open>/a/b/c\<close> the path \<open>/a/b\<close>
  is an ancestor of \<open>/a/b/c\<close>, yet it is dropped itself, in favour of \<open>/a\<close>.
\<close>

theorem find_short_paths_chain_counterexample:
  "is_abs_dir ''/a'' \<and> is_abs_dir ''/a/b'' \<and> is_abs_dir ''/a/b/c''
   \<and> is_ancestor ''/a/b'' ''/a/b/c''
   \<and> ''/a/b'' \<in> set [''/a'', ''/a/b'', ''/a/b/c'']
   \<and> ''/a/b/c'' \<in> set [''/a'', ''/a/b'', ''/a/b/c'']
   \<and> ''/a/b'' \<notin> find_short_paths (CHR ''/'') [''/a'', ''/a/b'', ''/a/b/c'']"
  by (simp add: is_abs_dir_def is_ancestor_def path_segments_def find_short_paths_def)

text \<open>
  Claim C8: for the empty candidate set the root of the tree is itself a node
  without children, so \<open>_collect_leaf_paths\<close> adds the join of no parts: the result
  is the set holding the empty string, not the empty set.
\<close>

theorem find_short_paths_empty: "find_short_paths sep [] = {''''}"
  by (simp add: find_short_paths_def)

text \<open>
  Claim C7 at the empty candidate set, which has no pair in ancestor relation:
  the result differs from the input. For a non-empty list of absolute directory
  paths the claim holds (\<open>find_short_paths_no_ancestor_pair\<close>), and the reduction is
  idempotent on every input (\<open>find_short_paths_idem\<close>).
\<close>

theorem find_short_paths_empty_not_identity:
  "find_short_paths (CHR ''/'') [] \<noteq> set []"
  by (simp add: find_short_paths_def)

section \<open>Properties of the event filter and the restart strategies\<close>

subsection \<open>Paths and suffixes\<close>

lemma str_join_append:
  "xs \<noteq> [] \<Longrightarrow> ys \<noteq> [] \<Longrightarrow> str_join s (xs @ ys) = str_join s xs @ s @ str_join s ys"
proof (induction xs)
  case Nil
  then show ?case by simp
next
  case (Cons x xs)
  show ?case
  proof (cases "xs = []")
    case True
    with Cons.prems show ?thesis by (simp add: str_join_Cons)
  next
    case False
    with Cons show ?thesis by (simp add: str_join_Cons)
  qed
qed

lemma within_imp_startswith:
  assumes "within (CHR ''/'') w d"
  shows "startswith d w"
proof -
  from assms obtain rest where split: "str_split (CHR ''/'') d = str_split (CHR ''/'') w @ rest"
    by (auto simp: within_def prefix_def)
  have join: "\<And>p. str_join ''/'' (str_split (CHR ''/'') p) = p"
    using str_join_split [of "CHR ''/''"] by simp
  show ?thesis
  proof (cases "rest = []")
    case True
    with split have "str_join ''/'' (str_split (CHR ''/'') d) = str_join ''/'' (str_split (CHR ''/'') w)"
      by simp
    then show ?thesis by (simp add: join startswith_def)
  next
    case False
    have "d = str_join ''/'' (str_split (CHR ''/'') w @ rest)"
      using join [of d] split by simp
    also have "\<dots> = w @ ''/'' @ str_join ''/'' rest"
      using False by (simp add: str_join_append str_split_not_Nil join)
    finally show ?thesis by (simp add: startswith_def)
  qed
qed

lemma dirname_butlast:
  assumes "p \<noteq> []" and "last p \<noteq> CHR ''/''"
  shows "dirname (butlast p) = dirname p"
proof -
  obtain c r where rp: "rev p = c # r" using assms(1) by (cases "rev p") auto
  then have "c = last p" using assms(1) by (metis last_rev list.sel(1) rev_rev_ident hd_rev)
  with assms(2) have c: "c \<noteq> CHR ''/''" by simp
  have "rev (butlast p) = r" using rp by (metis butlast_rev list.sel(3) rev_rev_ident rev_swap)
  with rp c show ?thesis by (simp add: dirname_def)
qed

lemma endswith_last:
  assumes "endswith p (suf @ [c])"
  shows "p \<noteq> [] \<and> last p = c \<and> endswith (butlast p) suf"
proof -
  from assms obtain r where rp: "rev p = c # rev suf @ r"
    by (auto simp: endswith_def prefix_def)
  then have p: "p = rev r @ suf @ [c]" by (metis rev_swap rev.simps(2) rev_append rev_rev_ident append_assoc)
  then show ?thesis by (simp add: endswith_def butlast_append)
qed

lemma norm_path_suffix: "endswith (norm_path p) ''.py'' \<longleftrightarrow> has_source_suffix p"
proof (cases "endswith p ''.pyc'' \<or> endswith p ''.pyo''")
  case True
  then have "endswith (butlast p) ''.py''"
    using endswith_last [of p "''.py''" "CHR ''c''"] endswith_last [of p "''.py''" "CHR ''o''"]
    by auto
  with True show ?thesis by (auto simp: norm_path_def has_source_suffix_def)
next
  case False
  then show ?thesis by (simp add: norm_path_def has_source_suffix_def)
qed

lemma norm_path_dirname: "dirname (norm_path p) = dirname p"
proof (cases "endswith p ''.pyc'' \<or> endswith p ''.pyo''")
  case True
  then have "p \<noteq> [] \<and> last p \<noteq> CHR ''/''"
    using endswith_last [of p "''.py''" "CHR ''c''"] endswith_last [of p "''.py''" "CHR ''o''"]
    by auto
  with True show ?thesis by (simp add: norm_path_def dirname_butlast)
next
  case False
  then show ?thesis by (simp add: norm_path_def)
qed

lemma reload_shape_ex:
  "\<exists>self' trace ctl. reload h self = (self', Call_reload # trace, Some ctl)
      \<and> Call_reload \<notin> set trace"
  by (simp add: reload_def called_def reload_using_exec_def reload_using_spawn_exit_def
        reload_using_spawn_wait_def Let_def)

lemma reload_shape:
  obtains self' trace ctl where "reload h self = (self', Call_reload # trace, Some ctl)"
    and "Call_reload \<notin> set trace"
  using reload_shape_ex by blast

lemma reload_calls_reload: "reload_calls (reload h self) = 1"
proof -
  obtain self' trace ctl where r: "reload h self = (self', Call_reload # trace, Some ctl)"
    and n: "Call_reload \<notin> set trace" by (rule reload_shape)
  from n have "count_list trace Call_reload = 0" by (simp add: count_list_0_iff)
  with r show ?thesis by (simp add: reload_calls_def)
qed

lemma dispatch_extra:
  assumes "p \<in> extra_paths self"
  shows "dispatch h self p = reload h self"
proof -
  obtain self' trace ctl where r: "reload h self = (self', Call_reload # trace, Some ctl)"
    by (rule reload_shape)
  with assms show ?thesis by (simp add: dispatch_def)
qed

lemma dispatch_not_extra:
  assumes "p \<notin> extra_paths self"
  shows "dispatch h self p =
     (if has_source_suffix p \<and> (\<exists>w \<in> watch_paths self. startswith (dirname p) w)
      then reload h self else (self, [], None))"
proof -
  have "dispatch h self p =
     (if endswith (norm_path p) ''.py''
         \<and> (\<exists>w \<in> watch_paths self. startswith (dirname (norm_path p)) w)
      then reload h self else (self, [], None))"
    using assms by (cases "reload h self") (simp add: dispatch_def norm_path_def Let_def)
  then show ?thesis by (simp only: norm_path_suffix norm_path_dirname)
qed

lemmas demo_defs = demo_host_def demo_reloader_def RELOAD_MODE_V_EXEC_def
  RELOAD_MODE_V_SPAWN_EXIT_def RELOAD_MODE_V_SPAWN_WAIT_def RELOAD_MODE_VALUES_def

lemmas path_defs = has_source_suffix_def endswith_def startswith_def dirname_def within_def

subsection \<open>Claims about \<open>dispatch\<close>, \<open>reload\<close> and the constructor\<close>

text \<open>
  Claim C2, as the code has it. An event whose path has a source suffix (\<open>.py\<close>,
  \<open>.pyc\<close>, \<open>.pyo\<close>) and whose directory is a watch path or nested under one makes
  \<open>dispatch\<close> enter \<open>reload\<close> exactly once (also when the path is an extra path as
  well: the first call of \<open>reload\<close> does not return). The test of the source is a
  string prefix: the same holds whenever the directory starts, as a string, with a
  watch path. An event whose path is not an extra path and whose directory does
  not start, as a string, with any watch path enters \<open>reload\<close> zero times.
\<close>

theorem dispatch_watched_source:
  "(has_source_suffix p \<and> (\<exists>w \<in> watch_paths self. within (CHR ''/'') w (dirname p))
      \<longrightarrow> reload_calls (dispatch h self p) = 1)
   \<and> (has_source_suffix p \<and> (\<exists>w \<in> watch_paths self. startswith (dirname p) w)
      \<longrightarrow> reload_calls (dispatch h self p) = 1)
   \<and> (p \<notin> extra_paths self \<and> \<not> (\<exists>w \<in> watch_paths self. startswith (dirname p) w)
      \<longrightarrow> reload_calls (dispatch h self p) = 0)"
proof (intro conjI impI)
  have once: "reload_calls (dispatch h self p) = 1"
    if "has_source_suffix p" and "\<exists>w \<in> watch_paths self. startswith (dirname p) w"
  proof (cases "p \<in> extra_paths self")
    case True
    then show ?thesis by (simp add: dispatch_extra reload_calls_reload)
  next
    case False
    with that show ?thesis by (simp add: dispatch_not_extra reload_calls_reload)
  qed
  {
    assume a: "has_source_suffix p \<and> (\<exists>w \<in> watch_paths self. within (CHR ''/'') w (dirname p))"
    then have "\<exists>w \<in> watch_paths self. startswith (dirname p) w"
      using within_imp_startswith by blast
    with a show "reload_calls (dispatch h self p) = 1" by (simp add: once)
  }
  {
    assume "has_source_suffix p \<and> (\<exists>w \<in> watch_paths self. startswith (dirname p) w)"
    then show "reload_calls (dispatch h self p) = 1" by (simp add: once)
  }
next
  assume "p \<notin> extra_paths self \<and> \<not> (\<exists>w \<in> watch_paths self. startswith (dirname p) w)"
  then show "reload_calls (dispatch h self p) = 0"
    by (simp add: dispatch_not_extra reload_calls_def)
qed

theorem dispatch_watched_source_witness:
  "has_source_suffix ''/a/b/x.pyc''
   \<and> within (CHR ''/'') ''/a'' (dirname ''/a/b/x.pyc'')
   \<and> startswith (dirname ''/a/b/x.pyc'') ''/a''
   \<and> reload_calls (dispatch demo_host (demo_reloader ''exec'' {''/a''} {}) ''/a/b/x.pyc'') = 1
   \<and> ''/tmp/y.py'' \<notin> extra_paths (demo_reloader ''exec'' {''/a''} {})
   \<and> \<not> startswith (dirname ''/tmp/y.py'') ''/a''
   \<and> reload_calls (dispatch demo_host (demo_reloader ''exec'' {''/a''} {}) ''/tmp/y.py'') = 0"
  using dispatch_watched_source [of "''/a/b/x.pyc''" "demo_reloader ''exec'' {''/a''} {}" demo_host]
    dispatch_watched_source [of "''/tmp/y.py''" "demo_reloader ''exec'' {''/a''} {}" demo_host]
  by (simp add: path_defs demo_reloader_def)

text \<open>
  Claim C2 as stated fails for a sibling directory that shares a string prefix
  with a watch path: with \<open>/a\<close> watched, the directory \<open>/ab\<close> is neither \<open>/a\<close> nor
  nested under it, yet an event for \<open>/ab/x.py\<close> enters \<open>reload\<close>, because the test of
  the source is \<open>file_dir.startswith\<close>.
\<close>

theorem dispatch_sibling_counterexample:
  "has_source_suffix ''/ab/x.py''
   \<and> dirname ''/ab/x.py'' = ''/ab''
   \<and> ''/ab/x.py'' \<notin> extra_paths (demo_reloader ''exec'' {''/a''} {})
   \<and> watch_paths (demo_reloader ''exec'' {''/a''} {}) = {''/a''}
   \<and> \<not> within (CHR ''/'') ''/a'' (dirname ''/ab/x.py'')
   \<and> reload_calls (dispatch demo_host (demo_reloader ''exec'' {''/a''} {}) ''/ab/x.py'') = 1"
  by (simp add: path_defs demo_defs dispatch_def reload_def called_def reload_calls_def
        reload_using_exec_def)

text \<open>
  Claim C3: an event whose path is a member of \<open>_extra_paths\<close> enters \<open>reload\<close>,
  whatever its suffix; an event whose path is not an extra path and has no source
  suffix enters \<open>reload\<close> zero times (whether or not it lies under the watch set).
\<close>

theorem dispatch_extra_path:
  "(p \<in> extra_paths self \<longrightarrow> reload_calls (dispatch h self p) = 1)
   \<and> (p \<notin> extra_paths self \<and> \<not> has_source_suffix p
      \<longrightarrow> reload_calls (dispatch h self p) = 0)"
proof (intro conjI impI)
  assume "p \<in> extra_paths self"
  then show "reload_calls (dispatch h self p) = 1"
    by (simp add: dispatch_extra reload_calls_reload)
next
  assume "p \<notin> extra_paths self \<and> \<not> has_source_suffix p"
  then show "reload_calls (dispatch h self p) = 0"
    by (simp add: dispatch_not_extra reload_calls_def)
qed

theorem dispatch_extra_path_witness:
  "''/x/config.ini'' \<in> extra_paths (demo_reloader ''exec'' {} {''/x/config.ini''})
   \<and> reload_calls (dispatch demo_host (demo_reloader ''exec'' {} {''/x/config.ini''}) ''/x/config.ini'') = 1
   \<and> ''/x/other.ini'' \<notin> extra_paths (demo_reloader ''exec'' {} {''/x/config.ini''})
   \<and> \<not> has_source_suffix ''/x/other.ini''
   \<and> reload_calls (dispatch demo_host (demo_reloader ''exec'' {} {''/x/config.ini''}) ''/x/other.ini'') = 0"
  using dispatch_extra_path [of "''/x/config.ini''" "demo_reloader ''exec'' {} {''/x/config.ini''}" demo_host]
    dispatch_extra_path [of "''/x/other.ini''" "demo_reloader ''exec'' {} {''/x/config.ini''}" demo_host]
  by (simp add: path_defs demo_reloader_def)

lemma reload_modes_distinct: "distinct RELOAD_MODE_VALUES"
  by (simp add: demo_defs)

text \<open>
  Claim C6: a given mode outside the three values makes the constructor raise
  \<open>ValueError\<close>; a given mode is never replaced (a constructed object has the mode
  that was given); and for every constructed object \<open>reload\<close> does not raise
  \<open>ValueError\<close> and runs the strategy of its mode, of which there is exactly one since the
  three mode values are distinct.
\<close>

theorem init_rejects_invalid_mode:
  "(m \<notin> set RELOAD_MODE_VALUES \<longrightarrow> init pf ab (Some m) fe ex iv = Inl (ValueError m))
   \<and> (init pf ab (Some m) fe ex iv = Inr self' \<longrightarrow> reload_mode self' = m)
   \<and> (init pf ab mode_arg fe ex iv = Inr self \<longrightarrow>
        (\<forall>e. snd (snd (reload h self)) \<noteq> Some (Raise e))
        \<and> ((reload_mode self = RELOAD_MODE_V_EXEC
              \<and> reload h self = called (reload_using_exec h self))
           \<or> (reload_mode self = RELOAD_MODE_V_SPAWN_EXIT
              \<and> reload h self = called (reload_using_spawn_exit h self))
           \<or> (reload_mode self = RELOAD_MODE_V_SPAWN_WAIT
              \<and> reload h self = called (reload_using_spawn_wait h self)))
        \<and> distinct RELOAD_MODE_VALUES)"
proof (intro conjI impI)
  assume "m \<notin> set RELOAD_MODE_VALUES"
  then show "init pf ab (Some m) fe ex iv = Inl (ValueError m)"
    by (simp add: init_def)
next
  assume "init pf ab (Some m) fe ex iv = Inr self'"
  then show "reload_mode self' = m"
    by (auto simp: init_def Let_def split: if_splits)
next
  assume a: "init pf ab mode_arg fe ex iv = Inr self"
  then have valid: "reload_mode self \<in> set RELOAD_MODE_VALUES"
    by (auto simp: init_def Let_def split: if_splits)
  then consider "reload_mode self = RELOAD_MODE_V_EXEC"
    | "reload_mode self = RELOAD_MODE_V_SPAWN_EXIT"
    | "reload_mode self = RELOAD_MODE_V_SPAWN_WAIT"
    by (auto simp: RELOAD_MODE_VALUES_def)
  then show "(reload_mode self = RELOAD_MODE_V_EXEC
              \<and> reload h self = called (reload_using_exec h self))
           \<or> (reload_mode self = RELOAD_MODE_V_SPAWN_EXIT
              \<and> reload h self = called (reload_using_spawn_exit h self))
           \<or> (reload_mode self = RELOAD_MODE_V_SPAWN_WAIT
              \<and> reload h self = called (reload_using_spawn_wait h self))"
  proof cases
    case 1 then show ?thesis by (simp add: reload_def)
  next
    case 2 then show ?thesis by (simp add: reload_def demo_defs)
  next
    case 3 then show ?thesis by (simp add: reload_def demo_defs)
  qed
  from valid show "\<forall>e. snd (snd (reload h self)) \<noteq> Some (Raise e)"
    by (auto simp: RELOAD_MODE_VALUES_def reload_def called_def reload_using_exec_def
          reload_using_spawn_exit_def reload_using_spawn_wait_def Let_def)
  show "distinct RELOAD_MODE_VALUES" by (rule reload_modes_distinct)
qed

theorem init_rejects_invalid_mode_witness:
  "''restart'' \<notin> set RELOAD_MODE_VALUES
   \<and> init ''linux'' id (Some ''restart'') False [] 1 = Inl (ValueError ''restart'')
   \<and> init ''linux'' id (Some ''spawn_exit'') False [] 1
       = Inr (demo_reloader ''spawn_exit'' {} {})
   \<and> reload_mode (demo_reloader ''spawn_exit'' {} {}) = ''spawn_exit''
   \<and> reload demo_host (demo_reloader ''spawn_exit'' {} {})
       = called (reload_using_spawn_exit demo_host (demo_reloader ''spawn_exit'' {} {}))"
  using init_rejects_invalid_mode
    [of "''restart''" "''linux''" id False "[]" 1 "demo_reloader ''spawn_exit'' {} {}"
        "Some ''spawn_exit''" "demo_reloader ''spawn_exit'' {} {}" demo_host]
  by (simp add: demo_defs init_def)

text \<open>
  Claim C9: in mode \<open>spawn_wait\<close> a reload first calls \<open>interrupt_main\<close>, then
  \<open>subprocess.call\<close> (which spawns the child and returns when the child has
  terminated), and only then leaves the thread by \<open>sys.exit(0)\<close>.
\<close>

theorem reload_spawn_wait_order:
  "reload_mode self = RELOAD_MODE_V_SPAWN_WAIT \<Longrightarrow>
   reload h self =
     (self,
      [Call_reload, Interrupt_main, Subprocess_call (executable h # argv h) (environ h)],
      Some (Sys_exit 0))"
  by (simp add: reload_def called_def reload_using_spawn_wait_def demo_defs)

theorem reload_spawn_wait_order_witness:
  "reload_mode (demo_reloader ''spawn_wait'' {} {}) = RELOAD_MODE_V_SPAWN_WAIT
   \<and> reload demo_host (demo_reloader ''spawn_wait'' {} {}) =
       (demo_reloader ''spawn_wait'' {} {},
        [Call_reload, Interrupt_main, Subprocess_call [''/usr/bin/python'', ''app.py''] []],
        Some (Sys_exit 0))"
  using reload_spawn_wait_order [of "demo_reloader ''spawn_wait'' {} {}" demo_host]
  by (simp add: demo_defs)

section \<open>Properties of the watcher loop\<close>

subsection \<open>The two inner loops\<close>

lemma schedule_loop_Cons:
  "schedule_loop obs (p # rest) (m, olds, log) =
     (if m p = None
      then schedule_loop obs rest (m(p \<mapsto> obs log p), olds - {p}, log @ [Schedule p (obs log p)])
      else schedule_loop obs rest (m, olds - {p}, log))"
  by (cases "obs log p") (simp_all add: Let_def)

lemma unschedule_loop_Cons:
  "unschedule_loop (q # rest) (m, log) =
     unschedule_loop rest
       (m(q := None),
        case m q of Some (Some h) \<Rightarrow> log @ [Unschedule (Some h)] | _ \<Rightarrow> log)"
  by (simp add: Let_def split: option.splits)

lemma schedule_loop_dom:
  "schedule_loop obs news (m, olds, log) = (m', olds', log') \<Longrightarrow>
   dom m' = dom m \<union> set news \<and> olds' = olds - set news"
proof (induction news arbitrary: m olds log)
  case Nil
  then show ?case by simp
next
  case (Cons p rest)
  show ?case
  proof (cases "m p = None")
    case False
    with Cons.prems have "schedule_loop obs rest (m, olds - {p}, log) = (m', olds', log')"
      by (simp add: schedule_loop_Cons del: schedule_loop.simps)
    from Cons.IH [OF this] False show ?thesis by auto
  next
    case True
    with Cons.prems have "schedule_loop obs rest
        (m(p \<mapsto> obs log p), olds - {p}, log @ [Schedule p (obs log p)]) = (m', olds', log')"
      by (simp add: schedule_loop_Cons del: schedule_loop.simps)
    from Cons.IH [OF this] show ?thesis by auto
  qed
qed

lemma schedule_loop_keeps:
  "schedule_loop obs news (m, olds, log) = (m', olds', log') \<Longrightarrow> m p = Some v \<Longrightarrow> m' p = Some v"
proof (induction news arbitrary: m olds log)
  case Nil
  then show ?case by simp
next
  case (Cons q rest)
  show ?case
  proof (cases "m q = None")
    case False
    with Cons.prems have "schedule_loop obs rest (m, olds - {q}, log) = (m', olds', log')"
      by (simp add: schedule_loop_Cons del: schedule_loop.simps)
    from Cons.IH [OF this Cons.prems(2)] show ?thesis .
  next
    case True
    with Cons.prems have run: "schedule_loop obs rest
        (m(q \<mapsto> obs log q), olds - {q}, log @ [Schedule q (obs log q)]) = (m', olds', log')"
      by (simp add: schedule_loop_Cons del: schedule_loop.simps)
    from True Cons.prems(2) have "(m(q \<mapsto> obs log q)) p = Some v" by auto
    from Cons.IH [OF run this] show ?thesis .
  qed
qed

lemma schedule_loop_calls:
  "schedule_loop obs news (m, olds, log) = (m', olds', log') \<Longrightarrow>
   \<exists>added. log' = log @ added
      \<and> unscheduled_args added = []
      \<and> (\<forall>p r. Schedule p r \<in> set added \<longleftrightarrow> p \<in> set news \<and> m p = None \<and> m' p = Some r)"
proof (induction news arbitrary: m olds log)
  case Nil
  then show ?case by simp
next
  case (Cons q rest)
  show ?case
  proof (cases "m q = None")
    case False
    with Cons.prems have run: "schedule_loop obs rest (m, olds - {q}, log) = (m', olds', log')"
      by (simp add: schedule_loop_Cons del: schedule_loop.simps)
    from Cons.IH [OF run] obtain added where a: "log' = log @ added" "unscheduled_args added = []"
      "\<forall>p r. Schedule p r \<in> set added \<longleftrightarrow> p \<in> set rest \<and> m p = None \<and> m' p = Some r"
      by blast
    from a(3) False have "\<forall>p r. Schedule p r \<in> set added \<longleftrightarrow> p \<in> set (q # rest) \<and> m p = None \<and> m' p = Some r"
      by auto
    with a(1,2) show ?thesis by blast
  next
    case True
    let ?m = "m(q \<mapsto> obs log q)"
    from True Cons.prems have run: "schedule_loop obs rest
        (?m, olds - {q}, log @ [Schedule q (obs log q)]) = (m', olds', log')"
      by (simp add: schedule_loop_Cons del: schedule_loop.simps)
    from Cons.IH [OF run] obtain added where a: "log' = (log @ [Schedule q (obs log q)]) @ added"
      "unscheduled_args added = []"
      "\<forall>p r. Schedule p r \<in> set added \<longleftrightarrow> p \<in> set rest \<and> ?m p = None \<and> m' p = Some r"
      by blast
    have q: "m' q = Some (obs log q)"
      using schedule_loop_keeps [OF run, of q "obs log q"] by simp
    have "\<forall>p r. Schedule p r \<in> set (Schedule q (obs log q) # added)
        \<longleftrightarrow> p \<in> set (q # rest) \<and> m p = None \<and> m' p = Some r"
      using a(3) q True by auto
    moreover have "unscheduled_args (Schedule q (obs log q) # added) = []"
      using a(2) by (cases "obs log q") simp_all
    moreover have "log' = log @ (Schedule q (obs log q) # added)" using a(1) by simp
    ultimately show ?thesis by blast
  qed
qed

lemma unschedule_loop_map:
  "unschedule_loop olds (m, log) = (m', log') \<Longrightarrow>
   m' = (\<lambda>p. if p \<in> set olds then None else m p)"
proof (induction olds arbitrary: m log)
  case Nil
  then show ?case by simp
next
  case (Cons q rest)
  let ?log = "case m q of Some (Some h) \<Rightarrow> log @ [Unschedule (Some h)] | _ \<Rightarrow> log"
  from Cons.prems have "unschedule_loop rest (m(q := None), ?log) = (m', log')"
    by (simp only: unschedule_loop_Cons)
  from Cons.IH [OF this] show ?case by auto
qed

lemma unschedule_loop_calls:
  "unschedule_loop olds (m, log) = (m', log') \<Longrightarrow>
   \<exists>removed. log' = log @ removed \<and> scheduled_handles removed = []
      \<and> (\<forall>c \<in> set removed. \<exists>p h. c = Unschedule (Some h) \<and> p \<in> set olds \<and> m p = Some (Some h))"
proof (induction olds arbitrary: m log)
  case Nil
  then show ?case by simp
next
  case (Cons q rest)
  let ?log = "case m q of Some (Some h) \<Rightarrow> log @ [Unschedule (Some h)] | _ \<Rightarrow> log"
  from Cons.prems have run: "unschedule_loop rest (m(q := None), ?log) = (m', log')"
    by (simp only: unschedule_loop_Cons)
  from Cons.IH [OF run] obtain removed where r: "log' = ?log @ removed"
    "scheduled_handles removed = []"
    "\<forall>c \<in> set removed. \<exists>p h. c = Unschedule (Some h) \<and> p \<in> set rest \<and> (m(q := None)) p = Some (Some h)"
    by blast
  have rest: "\<forall>c \<in> set removed. \<exists>p h. c = Unschedule (Some h) \<and> p \<in> set (q # rest) \<and> m p = Some (Some h)"
  proof
    fix c assume "c \<in> set removed"
    with r(3) obtain p h where c: "c = Unschedule (Some h)" "p \<in> set rest"
      "(m(q := None)) p = Some (Some h)" by blast
    from c(3) have "m p = Some (Some h)" by (simp split: if_splits)
    with c(1,2) show "\<exists>p h. c = Unschedule (Some h) \<and> p \<in> set (q # rest) \<and> m p = Some (Some h)"
      by auto
  qed
  show ?case
  proof (cases "\<exists>h. m q = Some (Some h)")
    case False
    then have "?log = log" by (auto split: option.splits)
    with r(1,2) rest show ?thesis by auto
  next
    case True
    then obtain h where mq: "m q = Some (Some h)" by blast
    have "log' = log @ (Unschedule (Some h) # removed)" using r(1) mq by simp
    moreover have "scheduled_handles (Unschedule (Some h) # removed) = []" using r(2) by simp
    moreover have "\<forall>c \<in> set (Unschedule (Some h) # removed).
        \<exists>p h. c = Unschedule (Some h) \<and> p \<in> set (q # rest) \<and> m p = Some (Some h)"
      using rest mq by auto
    ultimately show ?thesis by blast
  qed
qed

lemma run_watcher_pass_dom:
  assumes "iterates (old_paths_left obs news w) old_order"
  shows "dom (watche_obj_map (run_watcher_pass obs news old_order w)) = set news"
proof -
  obtain m1 olds1 log1 where s: "schedule_loop obs news
      (watche_obj_map w, dom (watche_obj_map w), calls w) = (m1, olds1, log1)"
    by (metis prod_cases3)
  obtain m2 log2 where u: "unschedule_loop old_order (m1, log1) = (m2, log2)"
    by (metis surj_pair)
  from schedule_loop_dom [OF s] have d: "dom m1 = dom (watche_obj_map w) \<union> set news"
    and o: "olds1 = dom (watche_obj_map w) - set news" by simp_all
  from assms s o have oo: "set old_order = dom (watche_obj_map w) - set news"
    by (simp add: iterates_def old_paths_left_def)
  have "dom m2 = dom m1 - set old_order"
    unfolding unschedule_loop_map [OF u] by (auto simp: dom_def)
  with d oo have "dom m2 = set news" by auto
  with s u show ?thesis by (simp add: run_watcher_pass_def)
qed

lemmas watcher_defs = run_watcher_pass_def watcher_init_def demo_observer_def iterates_def
  old_paths_left_def new_calls_def Let_def

text \<open>
  Claim C4: after one pass with desired set \<open>D2\<close>, from any state of the dict and for
  every iteration order of the new and of the remaining old paths, the key set of
  the dict is \<open>D2\<close>.
\<close>

theorem reconciliation_converges:
  assumes "iterates D2 new_watch_path_s"
      and "iterates (old_paths_left obs new_watch_path_s w) old_order"
  shows "dom (watche_obj_map (run_watcher_pass obs new_watch_path_s old_order w)) = D2"
  using run_watcher_pass_dom [OF assms(2)] assms(1) by (simp add: iterates_def)

theorem reconciliation_converges_witness:
  "iterates {''/c'', ''/b''} [''/c'', ''/b'']
   \<and> iterates
        (old_paths_left (demo_observer {}) [''/c'', ''/b'']
           (run_watcher_pass (demo_observer {}) [''/a'', ''/b''] [] watcher_init))
        [''/a'']
   \<and> dom (watche_obj_map
        (run_watcher_pass (demo_observer {}) [''/c'', ''/b''] [''/a'']
           (run_watcher_pass (demo_observer {}) [''/a'', ''/b''] [] watcher_init)))
       = {''/c'', ''/b''}"
  using reconciliation_converges
    [of "{''/c'', ''/b''}" "[''/c'', ''/b'']" "demo_observer {}"
        "run_watcher_pass (demo_observer {}) [''/a'', ''/b''] [] watcher_init" "[''/a'']"]
  by (simp add: watcher_defs)

subsection \<open>Failed registrations\<close>

lemma scheduled_handles_append:
  "scheduled_handles (xs @ ys) = scheduled_handles xs @ scheduled_handles ys"
  by (induction xs rule: scheduled_handles.induct) simp_all

lemma unscheduled_args_append:
  "unscheduled_args (xs @ ys) = unscheduled_args xs @ unscheduled_args ys"
  by (induction xs rule: unscheduled_args.induct) simp_all

lemma no_Schedule_if_only_Unschedule:
  "\<forall>c \<in> set cs. \<exists>v. c = Unschedule v \<Longrightarrow> Schedule p r \<notin> set cs"
  by auto

lemma run_watcher_pass_parts:
  assumes "iterates (old_paths_left obs news w) old_order"
  obtains m1 added removed where
    "calls (run_watcher_pass obs news old_order w) = calls w @ added @ removed"
    "\<forall>p r. Schedule p r \<in> set added \<longleftrightarrow> p \<in> set news \<and> watche_obj_map w p = None \<and> m1 p = Some r"
    "\<forall>c \<in> set removed. \<exists>v. c = Unschedule v"
    "\<forall>p v. watche_obj_map w p = Some v \<longrightarrow> m1 p = Some v"
    "\<forall>p \<in> set news. watche_obj_map (run_watcher_pass obs news old_order w) p = m1 p"
proof -
  obtain m1 olds1 log1 where s: "schedule_loop obs news
      (watche_obj_map w, dom (watche_obj_map w), calls w) = (m1, olds1, log1)"
    by (metis prod_cases3)
  obtain m2 log2 where u: "unschedule_loop old_order (m1, log1) = (m2, log2)"
    by (metis surj_pair)
  have pass: "run_watcher_pass obs news old_order w
      = \<lparr> watche_obj_map = m2, calls = log2, published = set news \<rparr>"
    using s u by (simp add: run_watcher_pass_def)
  from schedule_loop_calls [OF s] obtain added where a: "log1 = calls w @ added"
    "\<forall>p r. Schedule p r \<in> set added \<longleftrightarrow> p \<in> set news \<and> watche_obj_map w p = None \<and> m1 p = Some r"
    by blast
  from unschedule_loop_calls [OF u] obtain removed where r: "log2 = log1 @ removed"
    "\<forall>c \<in> set removed. \<exists>p h. c = Unschedule (Some h) \<and> p \<in> set old_order \<and> m1 p = Some (Some h)"
    by blast
  from schedule_loop_dom [OF s] have o: "olds1 = dom (watche_obj_map w) - set news" by simp
  from assms s o have oo: "set old_order = dom (watche_obj_map w) - set news"
    by (simp add: iterates_def old_paths_left_def)
  have 1: "calls (run_watcher_pass obs news old_order w) = calls w @ added @ removed"
    using pass a(1) r(1) by simp
  have 3: "\<forall>c \<in> set removed. \<exists>v. c = Unschedule v" using r(2) by blast
  have 4: "\<forall>p v. watche_obj_map w p = Some v \<longrightarrow> m1 p = Some v"
    using schedule_loop_keeps [OF s] by blast
  have 5: "\<forall>p \<in> set news. watche_obj_map (run_watcher_pass obs news old_order w) p = m1 p"
    using pass oo by (simp add: unschedule_loop_map [OF u])
  from 1 a(2) 3 4 5 show thesis by (rule that)
qed

lemma new_calls_append: "calls w' = calls w @ cs \<Longrightarrow> new_calls w w' = cs"
  by (simp add: new_calls_def)

lemma failed_registration_recorded:
  assumes it: "iterates (old_paths_left obs news w) old_order"
      and fail: "Schedule p None \<in> set (new_calls w (run_watcher_pass obs news old_order w))"
  shows "watche_obj_map (run_watcher_pass obs news old_order w) p = Some None"
proof -
  from it obtain m1 added removed where
    c: "calls (run_watcher_pass obs news old_order w) = calls w @ added @ removed"
    and a: "\<forall>p r. Schedule p r \<in> set added \<longleftrightarrow> p \<in> set news \<and> watche_obj_map w p = None \<and> m1 p = Some r"
    and r: "\<forall>c \<in> set removed. \<exists>v. c = Unschedule v"
    and n: "\<forall>p \<in> set news. watche_obj_map (run_watcher_pass obs news old_order w) p = m1 p"
    by (rule run_watcher_pass_parts)
  from c have "new_calls w (run_watcher_pass obs news old_order w) = added @ removed"
    by (rule new_calls_append)
  with fail no_Schedule_if_only_Unschedule [OF r] have "Schedule p None \<in> set added" by auto
  with a have "p \<in> set news" "m1 p = Some None" by blast+
  with n show ?thesis by simp
qed

lemma registered_path_kept:
  assumes it: "iterates (old_paths_left obs news w) old_order"
      and reg: "watche_obj_map w p = Some v" and des: "p \<in> set news"
  shows "watche_obj_map (run_watcher_pass obs news old_order w) p = Some v
       \<and> (\<forall>r. Schedule p r \<notin> set (new_calls w (run_watcher_pass obs news old_order w)))"
proof -
  from it obtain m1 added removed where
    c: "calls (run_watcher_pass obs news old_order w) = calls w @ added @ removed"
    and a: "\<forall>p r. Schedule p r \<in> set added \<longleftrightarrow> p \<in> set news \<and> watche_obj_map w p = None \<and> m1 p = Some r"
    and r: "\<forall>c \<in> set removed. \<exists>v. c = Unschedule v"
    and k: "\<forall>p v. watche_obj_map w p = Some v \<longrightarrow> m1 p = Some v"
    and n: "\<forall>p \<in> set news. watche_obj_map (run_watcher_pass obs news old_order w) p = m1 p"
    by (rule run_watcher_pass_parts)
  from c have nc: "new_calls w (run_watcher_pass obs news old_order w) = added @ removed"
    by (rule new_calls_append)
  from a reg have "\<forall>r. Schedule p r \<notin> set added" by simp
  with no_Schedule_if_only_Unschedule [OF r] nc
  have "\<forall>r. Schedule p r \<notin> set (new_calls w (run_watcher_pass obs news old_order w))" by auto
  moreover from k reg n des have "watche_obj_map (run_watcher_pass obs news old_order w) p = Some v"
    by simp
  ultimately show ?thesis by blast
qed

lemma calls_run_watcher_pass: "\<exists>cs. calls (run_watcher_pass obs news old_order w) = calls w @ cs"
proof -
  obtain m1 olds1 log1 where s: "schedule_loop obs news
      (watche_obj_map w, dom (watche_obj_map w), calls w) = (m1, olds1, log1)"
    by (metis prod_cases3)
  obtain m2 log2 where u: "unschedule_loop old_order (m1, log1) = (m2, log2)"
    by (metis surj_pair)
  from schedule_loop_calls [OF s] unschedule_loop_calls [OF u] s u
  show ?thesis by (auto simp: run_watcher_pass_def)
qed

lemma calls_run_watcher: "\<exists>cs. calls (run_watcher obs ticks w) = calls w @ cs"
proof (induction ticks arbitrary: w)
  case Nil
  show ?case by simp
next
  case (Cons t ticks)
  obtain news old_order where t: "t = (news, old_order)" by (cases t)
  from calls_run_watcher_pass [of obs news old_order w] Cons.IH [of "run_watcher_pass obs news old_order w"]
  show ?case unfolding t by (metis append_assoc run_watcher.simps(2))
qed

lemma registered_path_kept_run:
  assumes "passes_ok obs ticks w" and "watche_obj_map w p = Some v"
      and "\<forall>t \<in> set ticks. p \<in> set (fst t)"
  shows "watche_obj_map (run_watcher obs ticks w) p = Some v
       \<and> (\<forall>r. Schedule p r \<notin> set (new_calls w (run_watcher obs ticks w)))"
  using assms
proof (induction ticks arbitrary: w)
  case Nil
  show ?case using Nil.prems by (simp add: new_calls_def)
next
  case (Cons t ticks)
  obtain news old_order where t: "t = (news, old_order)" by (cases t)
  let ?w = "run_watcher_pass obs news old_order w"
  from Cons.prems(1) t have it: "iterates (old_paths_left obs news w) old_order"
    and ok: "passes_ok obs ticks ?w" by simp_all
  from Cons.prems(3) t have des: "p \<in> set news" and later: "\<forall>t \<in> set ticks. p \<in> set (fst t)"
    by simp_all
  from registered_path_kept [OF it Cons.prems(2) des]
  have kept: "watche_obj_map ?w p = Some v"
    and none: "\<forall>r. Schedule p r \<notin> set (new_calls w ?w)" by simp_all
  from Cons.IH [OF ok kept later]
  have fin: "watche_obj_map (run_watcher obs ticks ?w) p = Some v"
    and none': "\<forall>r. Schedule p r \<notin> set (new_calls ?w (run_watcher obs ticks ?w))" by simp_all
  obtain cs1 where c1: "calls ?w = calls w @ cs1" using calls_run_watcher_pass by blast
  obtain cs2 where c2: "calls (run_watcher obs ticks ?w) = calls ?w @ cs2"
    using calls_run_watcher by blast
  have "new_calls w (run_watcher obs ticks ?w) = new_calls w ?w @ new_calls ?w (run_watcher obs ticks ?w)"
    using c1 c2 by (simp add: new_calls_def)
  with none none' have "\<forall>r. Schedule p r \<notin> set (new_calls w (run_watcher obs ticks ?w))" by simp
  with fin show ?case unfolding t by simp
qed

text \<open>
  Claim C5: if in a pass the registration of a desired path \<open>p\<close> raises \<open>OSError\<close>,
  the pass completes with \<open>p\<close> recorded under the value \<open>None\<close> and with every desired
  path a key of the dict; and through all later passes in which \<open>p\<close> stays desired,
  \<open>p\<close> keeps the value \<open>None\<close> and \<open>schedule\<close> is not called for \<open>p\<close> again.
\<close>

theorem failed_registration_never_retried:
  assumes "iterates (old_paths_left obs new_watch_path_s w) old_order"
      and "Schedule p None \<in> set (new_calls w (run_watcher_pass obs new_watch_path_s old_order w))"
      and "passes_ok obs ticks (run_watcher_pass obs new_watch_path_s old_order w)"
      and "\<forall>t \<in> set ticks. p \<in> set (fst t)"
  shows "watche_obj_map (run_watcher_pass obs new_watch_path_s old_order w) p = Some None
       \<and> dom (watche_obj_map (run_watcher_pass obs new_watch_path_s old_order w))
           = set new_watch_path_s
       \<and> watche_obj_map
           (run_watcher obs ticks (run_watcher_pass obs new_watch_path_s old_order w)) p
           = Some None
       \<and> (\<forall>r. Schedule p r \<notin> set (new_calls
              (run_watcher_pass obs new_watch_path_s old_order w)
              (run_watcher obs ticks (run_watcher_pass obs new_watch_path_s old_order w))))"
proof -
  let ?w = "run_watcher_pass obs new_watch_path_s old_order w"
  have rec: "watche_obj_map ?w p = Some None"
    using assms(1,2) by (rule failed_registration_recorded)
  moreover have "dom (watche_obj_map ?w) = set new_watch_path_s"
    using assms(1) by (rule run_watcher_pass_dom)
  moreover note registered_path_kept_run [OF assms(3) rec assms(4)]
  ultimately show ?thesis by blast
qed

theorem failed_registration_never_retried_witness:
  "iterates (old_paths_left (demo_observer {''/gone''}) [''/a'', ''/gone''] watcher_init) []
   \<and> passes_ok (demo_observer {''/gone''})
        [([''/gone'', ''/a''], []), ([''/gone''], [''/a''])]
        (run_watcher_pass (demo_observer {''/gone''}) [''/a'', ''/gone''] [] watcher_init)
   \<and> ''/gone'' \<in> set (fst ([''/gone'', ''/a''], [] :: string list))
   \<and> ''/gone'' \<in> set (fst ([''/gone''], [''/a'']))
   \<and> Schedule ''/gone'' None
     \<in> set (new_calls watcher_init
          (run_watcher_pass (demo_observer {''/gone''}) [''/a'', ''/gone''] [] watcher_init))
   \<and> watche_obj_map
        (run_watcher_pass (demo_observer {''/gone''}) [''/a'', ''/gone''] [] watcher_init)
        ''/gone'' = Some None
   \<and> watche_obj_map
        (run_watcher (demo_observer {''/gone''})
           [([''/gone'', ''/a''], []), ([''/gone''], [''/a''])]
           (run_watcher_pass (demo_observer {''/gone''}) [''/a'', ''/gone''] [] watcher_init))
        ''/gone'' = Some None
   \<and> (\<forall>r. Schedule ''/gone'' r
          \<notin> set (new_calls
              (run_watcher_pass (demo_observer {''/gone''}) [''/a'', ''/gone''] [] watcher_init)
              (run_watcher (demo_observer {''/gone''})
                 [([''/gone'', ''/a''], []), ([''/gone''], [''/a''])]
                 (run_watcher_pass (demo_observer {''/gone''}) [''/a'', ''/gone''] []
                    watcher_init))))"
  using failed_registration_never_retried
    [of "demo_observer {''/gone''}" "[''/a'', ''/gone'']" watcher_init "[]" "''/gone''"
        "[([''/gone'', ''/a''], []), ([''/gone''], [''/a''])]"]
  by (simp add: watcher_defs insert_Diff_if)

subsection \<open>The calls made on the observer\<close>

lemma snoc_eq_split:
  "xs @ [c] = pre @ x # post \<longleftrightarrow>
     (pre = xs \<and> x = c \<and> post = []) \<or> (\<exists>post'. post = post' @ [c] \<and> xs = pre @ x # post')"
proof (cases post rule: rev_cases)
  case Nil
  then show ?thesis by auto
next
  case (snoc post' y)
  then show ?thesis by auto
qed

lemma in_unscheduled_args: "v \<in> set (unscheduled_args log) \<longleftrightarrow> Unschedule v \<in> set log"
  by (induction log rule: unscheduled_args.induct) auto

lemma finite_registered_at: "finite (dom m) \<Longrightarrow> finite (registered_at m h)"
  by (rule finite_subset [of _ "dom m"]) (auto simp: registered_at_def)

lemma registered_at_schedule:
  "m p = None \<Longrightarrow>
   registered_at (m(p \<mapsto> r)) h = (if r = Some h then insert p (registered_at m h) else registered_at m h)"
  by (auto simp: registered_at_def)

lemma registered_at_pop:
  "registered_at (m(p := None)) h = registered_at m h - {p}"
  by (auto simp: registered_at_def)

lemma count_inv_schedule:
  assumes inv: "count_inv m log" and new: "m p = None"
  shows "count_inv (m(p \<mapsto> r)) (log @ [Schedule p r])"
proof -
  from inv have fin: "finite (dom m)"
    and cnt: "\<And>h. count_list (scheduled_handles log) h
          = count_list (unscheduled_args log) (Some h) + card (registered_at m h)"
    by (simp_all add: count_inv_def)
  have notin: "\<And>h. p \<notin> registered_at m h" using new by (simp add: registered_at_def)
  have "count_list (scheduled_handles (log @ [Schedule p r])) h
      = count_list (unscheduled_args (log @ [Schedule p r])) (Some h)
        + card (registered_at (m(p \<mapsto> r)) h)" for h
  proof (cases "r = Some h")
    case True
    then have "card (registered_at (m(p \<mapsto> r)) h) = Suc (card (registered_at m h))"
      using notin [of h] finite_registered_at [OF fin, of h]
      by (simp add: registered_at_schedule new)
    with True cnt [of h] show ?thesis
      by (simp add: scheduled_handles_append unscheduled_args_append)
  next
    case False
    then have "card (registered_at (m(p \<mapsto> r)) h) = card (registered_at m h)"
      by (simp add: registered_at_schedule new)
    with False cnt [of h] show ?thesis
      by (cases r) (simp_all add: scheduled_handles_append unscheduled_args_append)
  qed
  with fin show ?thesis by (simp add: count_inv_def)
qed

lemma count_inv_unschedule:
  assumes inv: "count_inv m log" and reg: "m p = Some (Some h0)"
  shows "count_inv (m(p := None)) (log @ [Unschedule (Some h0)])"
proof -
  from inv have fin: "finite (dom m)"
    and cnt: "\<And>h. count_list (scheduled_handles log) h
          = count_list (unscheduled_args log) (Some h) + card (registered_at m h)"
    by (simp_all add: count_inv_def)
  have "count_list (scheduled_handles (log @ [Unschedule (Some h0)])) h
      = count_list (unscheduled_args (log @ [Unschedule (Some h0)])) (Some h)
        + card (registered_at (m(p := None)) h)" for h
  proof (cases "h = h0")
    case True
    have "p \<in> registered_at m h0" using reg by (simp add: registered_at_def)
    then have "Suc (card (registered_at (m(p := None)) h0)) = card (registered_at m h0)"
      using finite_registered_at [OF fin, of h0]
      by (simp only: registered_at_pop card_Suc_Diff1)
    with True cnt [of h0] show ?thesis
      by (simp add: scheduled_handles_append unscheduled_args_append)
  next
    case False
    then have "p \<notin> registered_at m h" using reg by (simp add: registered_at_def)
    then have "registered_at (m(p := None)) h = registered_at m h"
      by (simp add: registered_at_pop)
    with False cnt [of h] show ?thesis
      by (simp add: scheduled_handles_append unscheduled_args_append)
  qed
  with fin show ?thesis by (simp add: count_inv_def)
qed

lemma count_inv_pop:
  assumes inv: "count_inv m log" and none: "\<nexists>h. m p = Some (Some h)"
  shows "count_inv (m(p := None)) log"
proof -
  have "registered_at (m(p := None)) h = registered_at m h" for h
    using none by (auto simp: registered_at_def)
  with inv show ?thesis by (simp add: count_inv_def)
qed

lemma unsched_consumes_Schedule:
  "unsched_consumes log \<Longrightarrow> unsched_consumes (log @ [Schedule p r])"
  unfolding unsched_consumes_def snoc_eq_split by blast

lemma unsched_consumes_Unschedule:
  assumes "unsched_consumes log"
      and "count_list (unscheduled_args log) (Some h) < count_list (scheduled_handles log) h"
  shows "unsched_consumes (log @ [Unschedule (Some h)])"
  using assms unfolding unsched_consumes_def snoc_eq_split by blast

lemma registered_handle_unconsumed:
  assumes "count_inv m log" and "m p = Some (Some h)"
  shows "count_list (unscheduled_args log) (Some h) < count_list (scheduled_handles log) h"
proof -
  from assms(1) have fin: "finite (dom m)" by (simp add: count_inv_def)
  have "p \<in> registered_at m h" using assms(2) by (simp add: registered_at_def)
  then have "0 < card (registered_at m h)"
    using finite_registered_at [OF fin, of h] by (auto simp: card_gt_0_iff)
  with assms(1) show ?thesis by (simp add: count_inv_def)
qed

lemma consume_inv_schedule_loop:
  "consume_inv m log \<Longrightarrow> schedule_loop obs news (m, olds, log) = (m', olds', log')
   \<Longrightarrow> consume_inv m' log'"
proof (induction news arbitrary: m olds log)
  case Nil
  then show ?case by simp
next
  case (Cons p rest)
  show ?case
  proof (cases "m p = None")
    case True
    with Cons.prems(2) have run: "schedule_loop obs rest
        (m(p \<mapsto> obs log p), olds - {p}, log @ [Schedule p (obs log p)]) = (m', olds', log')"
      by (simp add: schedule_loop_Cons del: schedule_loop.simps)
    from Cons.prems(1) True
    have "consume_inv (m(p \<mapsto> obs log p)) (log @ [Schedule p (obs log p)])"
      by (simp add: consume_inv_def count_inv_schedule unsched_consumes_Schedule)
    from Cons.IH [OF this run] show ?thesis .
  next
    case False
    with Cons.prems(2) have run: "schedule_loop obs rest (m, olds - {p}, log) = (m', olds', log')"
      by (simp add: schedule_loop_Cons del: schedule_loop.simps)
    from Cons.IH [OF Cons.prems(1) run] show ?thesis .
  qed
qed

lemma consume_inv_unschedule_loop:
  "consume_inv m log \<Longrightarrow> unschedule_loop olds (m, log) = (m', log') \<Longrightarrow> consume_inv m' log'"
proof (induction olds arbitrary: m log)
  case Nil
  then show ?case by simp
next
  case (Cons q rest)
  let ?log = "case m q of Some (Some h) \<Rightarrow> log @ [Unschedule (Some h)] | _ \<Rightarrow> log"
  from Cons.prems(2) have run: "unschedule_loop rest (m(q := None), ?log) = (m', log')"
    by (simp only: unschedule_loop_Cons)
  from Cons.prems(1) have c: "count_inv m log" and u: "unsched_consumes log"
    by (simp_all add: consume_inv_def)
  have "consume_inv (m(q := None)) ?log"
  proof (cases "\<exists>h. m q = Some (Some h)")
    case True
    then obtain h where mq: "m q = Some (Some h)" by blast
    have "unsched_consumes (log @ [Unschedule (Some h)])"
      using u registered_handle_unconsumed [OF c mq] by (rule unsched_consumes_Unschedule)
    with count_inv_unschedule [OF c mq] mq show ?thesis by (simp add: consume_inv_def)
  next
    case False
    then have "?log = log" by (auto split: option.splits)
    with count_inv_pop [OF c False] u show ?thesis by (simp add: consume_inv_def)
  qed
  from Cons.IH [OF this run] show ?case .
qed

lemma consume_inv_run_watcher_pass:
  assumes "consume_inv (watche_obj_map w) (calls w)"
  shows "consume_inv (watche_obj_map (run_watcher_pass obs news old_order w))
                     (calls (run_watcher_pass obs news old_order w))"
proof -
  obtain m1 olds1 log1 where s: "schedule_loop obs news
      (watche_obj_map w, dom (watche_obj_map w), calls w) = (m1, olds1, log1)"
    by (metis prod_cases3)
  obtain m2 log2 where u: "unschedule_loop old_order (m1, log1) = (m2, log2)"
    by (metis surj_pair)
  from consume_inv_schedule_loop [OF assms s] have "consume_inv m1 log1" .
  from consume_inv_unschedule_loop [OF this u] have "consume_inv m2 log2" .
  with s u show ?thesis by (simp add: run_watcher_pass_def)
qed

lemma consume_inv_run_watcher:
  "consume_inv (watche_obj_map w) (calls w) \<Longrightarrow>
   consume_inv (watche_obj_map (run_watcher obs ticks w)) (calls (run_watcher obs ticks w))"
proof (induction ticks arbitrary: w)
  case Nil
  then show ?case by simp
next
  case (Cons t ticks)
  obtain news old_order where t: "t = (news, old_order)" by (cases t)
  from Cons.IH [OF consume_inv_run_watcher_pass [OF Cons.prems]] show ?case
    unfolding t by simp
qed

lemma consume_inv_init: "consume_inv (watche_obj_map watcher_init) (calls watcher_init)"
  by (simp add: watcher_init_def consume_inv_def count_inv_def unsched_consumes_def
        registered_at_def)

lemma count_list_distinct_le: "distinct xs \<Longrightarrow> count_list xs x \<le> 1"
  by (induction xs) (auto simp: count_list_0_iff)

text \<open>
  Claim C10: in a run of any number of passes from the initial state, every call of
  \<open>unschedule\<close> passes a handle (never \<open>None\<close>) that earlier calls of \<open>schedule\<close>
  returned, and returned more often than earlier calls of \<open>unschedule\<close> were given
  it: no registration is unscheduled twice. When the observer returned no handle
  twice, that handle is passed to no other call of \<open>unschedule\<close>, before or after.
\<close>

theorem unschedule_consumes_registration:
  assumes "calls (run_watcher obs ticks watcher_init) = pre @ Unschedule v # post"
  shows "\<exists>h. v = Some h
          \<and> h \<in> set (scheduled_handles pre)
          \<and> count_list (unscheduled_args pre) (Some h) < count_list (scheduled_handles pre) h
          \<and> (distinct (scheduled_handles (pre @ Unschedule v # post))
               \<longrightarrow> Some h \<notin> set (unscheduled_args pre) \<and> Some h \<notin> set (unscheduled_args post))"
proof -
  let ?w = "run_watcher obs ticks watcher_init"
  have "consume_inv (watche_obj_map ?w) (calls ?w)"
    using consume_inv_init by (rule consume_inv_run_watcher)
  then have U: "unsched_consumes (pre @ Unschedule v # post)"
    using assms by (simp add: consume_inv_def)
  then obtain h where h: "v = Some h"
    and lt: "count_list (unscheduled_args pre) (Some h) < count_list (scheduled_handles pre) h"
    unfolding unsched_consumes_def by blast
  from lt have "count_list (scheduled_handles pre) h \<noteq> 0" by simp
  then have mem: "h \<in> set (scheduled_handles pre)" by (simp add: count_list_0_iff)
  have "Some h \<notin> set (unscheduled_args pre) \<and> Some h \<notin> set (unscheduled_args post)"
    if d: "distinct (scheduled_handles (pre @ Unschedule v # post))"
  proof
    from d have "distinct (scheduled_handles pre)" by (simp add: scheduled_handles_append)
    then have "count_list (scheduled_handles pre) h \<le> 1" by (rule count_list_distinct_le)
    with lt have "count_list (unscheduled_args pre) (Some h) = 0" by simp
    then show "Some h \<notin> set (unscheduled_args pre)" by (simp add: count_list_0_iff)
  next
    show "Some h \<notin> set (unscheduled_args post)"
    proof
      assume "Some h \<in> set (unscheduled_args post)"
      then have "Unschedule (Some h) \<in> set post" by (simp add: in_unscheduled_args)
      then obtain post1 post2 where post: "post = post1 @ Unschedule (Some h) # post2"
        by (meson split_list)
      let ?pre = "pre @ Unschedule v # post1"
      have "pre @ Unschedule v # post = ?pre @ Unschedule (Some h) # post2"
        using post by simp
      with U have lt': "count_list (unscheduled_args ?pre) (Some h)
          < count_list (scheduled_handles ?pre) h"
        unfolding unsched_consumes_def by blast
      from d post have "distinct (scheduled_handles ?pre)"
        by (auto simp: scheduled_handles_append)
      then have "count_list (scheduled_handles ?pre) h \<le> 1" by (rule count_list_distinct_le)
      moreover have "1 \<le> count_list (unscheduled_args ?pre) (Some h)"
        using h by (simp add: unscheduled_args_append)
      ultimately show False using lt' by simp
    qed
  qed
  with h mem lt show ?thesis by blast
qed

theorem unschedule_consumes_registration_witness:
  "calls (run_watcher (demo_observer {}) [([''/a''], []), ([], [''/a''])] watcher_init)
     = [Schedule ''/a'' (Some 0)] @ Unschedule (Some 0) # []
   \<and> 0 \<in> set (scheduled_handles [Schedule ''/a'' (Some 0)])
   \<and> count_list (unscheduled_args [Schedule ''/a'' (Some 0)]) (Some 0)
       < count_list (scheduled_handles [Schedule ''/a'' (Some 0)]) 0
   \<and> distinct (scheduled_handles ([Schedule ''/a'' (Some 0)] @ Unschedule (Some 0) # []))
   \<and> Some 0 \<notin> set (unscheduled_args [Schedule ''/a'' (Some 0)])"
  using unschedule_consumes_registration
    [of "demo_observer {}" "[([''/a''], []), ([], [''/a''])]" "[Schedule ''/a'' (Some 0)]"
        "Some 0" "[]"]
  by (simp add: watcher_defs)

end
